theory Spec2Isabelle
  imports Main "HOL-Library.AList" "HOL-Library.Word"
begin

section \<open>Shared string helpers (JavaScript \<open>split\<close>, \<open>join\<close>, \<open>endsWith\<close>, \<open>includes\<close>)\<close>

text \<open>
  JavaScript strings are modelled as \<^typ>\<open>string\<close>: a list of characters, each standing for
  one code unit of the source string (code units above 255 are outside the model).
\<close>

text \<open>\<open>s.split(c)\<close> for a one-character separator: always at least one part.\<close>

fun split_on :: "char \<Rightarrow> string \<Rightarrow> string list" where
  "split_on c [] = [[]]"
| "split_on c (x # xs) =
     (if x = c then [] # split_on c xs
      else (case split_on c xs of
              [] \<Rightarrow> [[x]]
            | p # ps \<Rightarrow> (x # p) # ps))"

text \<open>\<open>parts.join(sep)\<close>.\<close>

fun join :: "string \<Rightarrow> string list \<Rightarrow> string" where
  "join sep [] = []"
| "join sep [x] = x"
| "join sep (x # y # ys) = x @ sep @ join sep (y # ys)"

section \<open>Terminal text utilities: \<open>normalizeOverstrikes\<close> (utils/ansi-strip.ts)\<close>

definition BS :: char where "BS = CHR 0x08"
definition NL :: char where "NL = CHR 0x0A"
definition CR :: char where "CR = CHR 0x0D"

text \<open>
  First loop of \<open>normalizeOverstrikes\<close>: \<open>out.pop()\<close> on a backspace (a no-op on the empty
  array), \<open>out.push(ch)\<close> otherwise. \<open>out\<close> holds one-character strings, so it is a
  \<^typ>\<open>string\<close> here and \<open>out.join("")\<close> is the list itself.
\<close>

definition bs_step :: "string \<Rightarrow> char \<Rightarrow> string" where
  "bs_step out ch = (if ch = BS then butlast out else out @ [ch])"

definition handleBackspaces :: "string \<Rightarrow> string" where
  "handleBackspaces input = foldl bs_step [] input"

text \<open>
  \<open>buf[i] = v\<close> on a JavaScript array of one-character strings: in range it overwrites,
  past the end it extends the array, the skipped slots being holes (which \<open>join\<close> renders
  as the empty string).
\<close>

definition js_set :: "string list \<Rightarrow> nat \<Rightarrow> string \<Rightarrow> string list" where
  "js_set buf i v =
     (if i < length buf then buf[i := v]
      else buf @ replicate (i - length buf) [] @ [v])"

text \<open>The inner loop \<open>for (i = 0; i < len; i++) buf[i] = part.charAt(i)\<close>.\<close>

definition write_part :: "string list \<Rightarrow> string \<Rightarrow> string list" where
  "write_part buf part = foldl (\<lambda>b i. js_set b i [part ! i]) buf [0..<length part]"

text \<open>The callback given to \<open>map\<close>: one line of the backspace-free text.\<close>

definition overstrikeLine :: "string \<Rightarrow> string" where
  "overstrikeLine line =
     (if CR \<notin> set line then line
      else concat (foldl write_part [] (split_on CR line)))"

definition normalizeOverstrikes :: "string \<Rightarrow> string" where
  "normalizeOverstrikes input =
     (if input = [] then []
      else join [NL] (map overstrikeLine (split_on NL (handleBackspaces input))))"

section \<open>Errors\<close>

text \<open>
  The error classes of the source, each with its message; \<open>ContextError\<close> and
  \<open>TemplateError\<close> carry their optional \<open>key\<close> / \<open>path\<close> field. \<open>Error\<close> is the plain
  JavaScript \<open>Error\<close>.
\<close>

datatype error =
    DependencyError string
  | ContextError string "string option"
  | TemplateError string "string option"
  | Error string

definition dq :: string where "dq = [CHR 0x22]"

section \<open>Dependency resolver (dependency-resolver.ts)\<close>

record metadata_t =
  version :: "string option"
  dependencies :: "string list option"

text \<open>An \<open>Element\<close>; the type of its pipeline plays no part in the resolver.\<close>

record 'p element =
  name :: string
  metadata :: "metadata_t option"
  pipeline :: 'p

text \<open>\<open>element.metadata?.dependencies || []\<close>.\<close>

definition deps_of :: "'p element \<Rightarrow> string list" where
  "deps_of e =
     (case metadata e of
        None \<Rightarrow> []
      | Some m \<Rightarrow> (case dependencies m of None \<Rightarrow> [] | Some ds \<Rightarrow> ds))"

text \<open>
  A JavaScript \<open>Map\<close> is an association list: \<^const>\<open>map_of\<close> is \<open>get\<close>,
  \<^const>\<open>AList.update\<close> is \<open>set\<close> (an existing key keeps its place, a new key goes to the
  end, which is the iteration order of a \<open>Map\<close>). A \<open>Set\<close> of strings is a duplicate-free list
  in insertion order.
\<close>

definition set_add :: "string \<Rightarrow> string list \<Rightarrow> string list" where
  "set_add x s = (if x \<in> set s then s else s @ [x])"

record 'p resolver =
  elements :: "'p element list"
  elementMap :: "(string \<times> 'p element) list"
  adjacencyList :: "(string \<times> string list) list"
  inDegree :: "(string \<times> int) list"

fun buildElementMap ::
  "'p element list \<Rightarrow> (string \<times> 'p element) list \<Rightarrow> error + (string \<times> 'p element) list" where
  "buildElementMap [] m = Inr m"
| "buildElementMap (e # es) m =
     (if map_of m (name e) \<noteq> None
      then Inl (DependencyError (''Duplicate element name: '' @ dq @ name e @ dq))
      else buildElementMap es (AList.update (name e) e m))"

text \<open>The inner loop of \<open>validateDependencies\<close>, over one element's dependency names.\<close>

fun validateDeps ::
  "(string \<times> 'p element) list \<Rightarrow> string \<Rightarrow> string list \<Rightarrow> error + unit" where
  "validateDeps m n [] = Inr ()"
| "validateDeps m n (depName # ds) =
     (if depName = n
      then Inl (DependencyError (''Element '' @ dq @ n @ dq @ '' cannot depend on itself''))
      else if map_of m depName = None
      then Inl (DependencyError (''Element '' @ dq @ n @ dq @ '' depends on '' @ dq @ depName @ dq
                                  @ '' which does not exist''))
      else validateDeps m n ds)"

fun validateDependencies ::
  "(string \<times> 'p element) list \<Rightarrow> 'p element list \<Rightarrow> error + unit" where
  "validateDependencies m [] = Inr ()"
| "validateDependencies m (e # es) =
     (case validateDeps m (name e) (deps_of e) of
        Inl err \<Rightarrow> Inl err
      | Inr _ \<Rightarrow> validateDependencies m es)"

text \<open>
  \<open>buildGraph\<close>. First loop: every element gets an empty neighbour set and in-degree 0.
  Second loop, per dependency name: \<open>adjacencyList.get(depName)?.add(element.name)\<close> (nothing
  happens when the key is absent) and the element's in-degree goes up by one: once per
  entry of the dependency list, repeated entries included.
\<close>

definition graph_init ::
  "'p element list \<Rightarrow> (string \<times> string list) list \<times> (string \<times> int) list" where
  "graph_init es =
     foldl (\<lambda>(adj, deg) e. (AList.update (name e) [] adj, AList.update (name e) 0 deg)) ([], []) es"

definition js_or0 :: "int option \<Rightarrow> int" where
  "js_or0 d = (case d of None \<Rightarrow> 0 | Some v \<Rightarrow> v)"

definition add_edge ::
  "string \<Rightarrow> (string \<times> string list) list \<times> (string \<times> int) list \<Rightarrow> string
     \<Rightarrow> (string \<times> string list) list \<times> (string \<times> int) list" where
  "add_edge n g depName =
     (case g of (adj, deg) \<Rightarrow>
        ((case map_of adj depName of
            None \<Rightarrow> adj
          | Some s \<Rightarrow> AList.update depName (set_add n s) adj),
         AList.update n (js_or0 (map_of deg n) + 1) deg))"

definition graph_edges ::
  "'p element list \<Rightarrow> (string \<times> string list) list \<times> (string \<times> int) list
     \<Rightarrow> (string \<times> string list) list \<times> (string \<times> int) list" where
  "graph_edges es g = foldl (\<lambda>g e. foldl (add_edge (name e)) g (deps_of e)) g es"

text \<open>The constructor: \<open>buildElementMap\<close>, \<open>validateDependencies\<close>, \<open>buildGraph\<close>.\<close>

definition new_DependencyResolver :: "'p element list \<Rightarrow> error + 'p resolver" where
  "new_DependencyResolver es =
     (case buildElementMap es [] of
        Inl err \<Rightarrow> Inl err
      | Inr m \<Rightarrow>
          (case validateDependencies m es of
             Inl err \<Rightarrow> Inl err
           | Inr _ \<Rightarrow>
               (case graph_edges es (graph_init es) of (adj, deg) \<Rightarrow>
                  Inr \<lparr>elements = es, elementMap = m, adjacencyList = adj, inDegree = deg\<rparr>)))"

text \<open>
  One pass of the \<open>for (const neighbor of neighbors)\<close> loop of \<open>topologicalSort\<close>, on the
  pair (\<open>inDegree\<close>, \<open>queue\<close>).
\<close>

definition relax ::
  "(string \<times> int) list \<times> string list \<Rightarrow> string \<Rightarrow> (string \<times> int) list \<times> string list" where
  "relax st neighbor =
     (case st of (deg, queue) \<Rightarrow>
        (let newDegree = js_or0 (map_of deg neighbor) - 1
         in (AList.update neighbor newDegree deg,
             if newDegree = 0 then queue @ [neighbor] else queue)))"

text \<open>\<open>this.adjacencyList.get(current) || new Set()\<close>.\<close>

definition neighbors_of :: "(string \<times> string list) list \<Rightarrow> string \<Rightarrow> string list" where
  "neighbors_of adj current = (case map_of adj current of None \<Rightarrow> [] | Some s \<Rightarrow> s)"

definition positive_entries :: "(string \<times> int) list \<Rightarrow> nat" where
  "positive_entries deg = length (filter (\<lambda>kv. 0 < snd kv) deg)"

text \<open>
  The \<open>while (queue.length > 0)\<close> loop. \<open>result\<close> holds what \<open>elementMap.get(current)\<close>
  returned (\<open>None\<close> is \<open>undefined\<close>); the in-degree map is returned too, since the loop
  mutates \<open>this.inDegree\<close>.
\<close>

function kahn_loop ::
  "(string \<times> 'p element) list \<Rightarrow> (string \<times> string list) list
     \<Rightarrow> (string \<times> int) list \<Rightarrow> string list \<Rightarrow> 'p element option list
     \<Rightarrow> 'p element option list \<times> (string \<times> int) list" where
  "kahn_loop m adj deg [] result = (result, deg)"
| "kahn_loop m adj deg (current # queue) result =
     (case foldl relax (deg, queue) (neighbors_of adj current) of
        (deg', queue') \<Rightarrow> kahn_loop m adj deg' queue' (result @ [map_of m current]))"
  by pat_completeness auto
termination
proof -
  have upd: "positive_entries (AList.update k (js_or0 (map_of d k) - 1) d)
               + (if js_or0 (map_of d k) = 1 then 1 else 0) = positive_entries d" for k d
  proof (induction d)
    case Nil
    then show ?case by (simp add: positive_entries_def js_or0_def)
  next
    case (Cons a d)
    then show ?case
      by (cases a) (auto simp: positive_entries_def js_or0_def)
  qed
  have step: "length (snd (relax st n)) + positive_entries (fst (relax st n))
                = length (snd st) + positive_entries (fst st)" for st n
    using upd[of n "fst st"]
    by (cases st) (auto simp: relax_def Let_def split: if_splits)
  have inv: "length (snd (foldl relax st ns)) + positive_entries (fst (foldl relax st ns))
               = length (snd st) + positive_entries (fst st)" for st ns
    by (induction ns arbitrary: st) (simp_all add: step)
  have dec: "(deg', queue') = foldl relax (deg, queue) ns
             \<Longrightarrow> length queue' + positive_entries deg' < Suc (length queue + positive_entries deg)"
    for deg' queue' deg queue ns
    using inv[of "(deg, queue)" ns] by (metis fst_conv snd_conv lessI)
  show ?thesis
    by (relation "measure (\<lambda>(m, adj, deg, queue, result). length queue + positive_entries deg)")
       (auto dest: dec)
qed

text \<open>\<open>topologicalSort\<close>: the queue starts with the keys of in-degree 0, in map order.\<close>

definition topologicalSort ::
  "'p resolver \<Rightarrow> 'p element option list \<times> (string \<times> int) list" where
  "topologicalSort r =
     kahn_loop (elementMap r) (adjacencyList r) (inDegree r)
       (map fst (filter (\<lambda>kv. snd kv = 0) (inDegree r))) []"

text \<open>
  Cycle reporting. The separator of the printed cycle is \<open>" \<rightarrow> "\<close>: a space, U+2192 and
  a space, written here as the bytes of its UTF-8 form.
\<close>

definition arrow :: string where
  "arrow = [CHR 0x20, CHR 0xE2, CHR 0x86, CHR 0x92, CHR 0x20]"

text \<open>\<open>path.indexOf(node)\<close> (-1 when absent) and \<open>path.slice(i)\<close> (a negative \<open>i\<close> counts
  from the end).\<close>

definition indexOf :: "string list \<Rightarrow> string \<Rightarrow> int" where
  "indexOf xs x = (if x \<in> set xs then int (length (takeWhile (\<lambda>y. y \<noteq> x) xs)) else - 1)"

definition js_slice_from :: "string list \<Rightarrow> int \<Rightarrow> string list" where
  "js_slice_from xs i =
     (if i < 0 then drop (nat (max 0 (int (length xs) + i))) xs else drop (nat i) xs)"

text \<open>The three collections the closure \<open>dfs\<close> mutates.\<close>

record dfs_state =
  visited :: "string set"
  recursionStack :: "string set"
  path :: "string list"

text \<open>\<open>this.elementMap.get(node)?.metadata?.dependencies || []\<close>.\<close>

definition node_deps :: "(string \<times> 'p element) list \<Rightarrow> string \<Rightarrow> string list" where
  "node_deps m node = (case map_of m node of None \<Rightarrow> [] | Some e \<Rightarrow> deps_of e)"

text \<open>Truthiness of a \<open>string | null\<close>: \<open>null\<close> and the empty string are falsy.\<close>

definition js_truthy :: "string option \<Rightarrow> bool" where
  "js_truthy r = (r \<noteq> None \<and> r \<noteq> Some [])"

text \<open>
  \<open>enter\<close>: \<open>visited.add(node); recursionStack.add(node); path.push(node)\<close>.
  \<open>leave\<close>: \<open>recursionStack.delete(node); path.pop()\<close>.
\<close>

definition enter :: "string \<Rightarrow> dfs_state \<Rightarrow> dfs_state" where
  "enter node st =
     st\<lparr>visited := insert node (visited st),
        recursionStack := insert node (recursionStack st),
        path := path st @ [node]\<rparr>"

definition leave :: "string \<Rightarrow> dfs_state \<Rightarrow> dfs_state" where
  "leave node st =
     st\<lparr>recursionStack := recursionStack st - {node}, path := butlast (path st)\<rparr>"

text \<open>
  The closure \<open>dfs\<close> and its \<open>for (const dep of dependencies)\<close> loop, which returns the
  first truthy \<open>cycleFound\<close>.
\<close>

function dfs :: "(string \<times> 'p element) list \<Rightarrow> string \<Rightarrow> dfs_state \<Rightarrow> string option \<times> dfs_state"
  and dfs_deps :: "(string \<times> 'p element) list \<Rightarrow> string list \<Rightarrow> dfs_state \<Rightarrow> string option \<times> dfs_state"
  where
  "dfs m node st =
     (if node \<in> recursionStack st
      then (Some (join arrow (js_slice_from (path st) (indexOf (path st) node) @ [node])), st)
      else if node \<in> visited st then (None, st)
      else (case dfs_deps m (node_deps m node) (enter node st) of
              (Some cycleFound, st') \<Rightarrow> (Some cycleFound, st')
            | (None, st') \<Rightarrow> (None, leave node st')))"
| "dfs_deps m [] st = (None, st)"
| "dfs_deps m (dep # ds) st =
     (case dfs m dep st of
        (cycleFound, st') \<Rightarrow>
          if js_truthy cycleFound then (cycleFound, st') else dfs_deps m ds st')"
  by pat_completeness auto
termination
proof -
  have mono:
    "dfs_dfs_deps_dom (Inl (m, node, st)) \<Longrightarrow> visited st \<subseteq> visited (snd (dfs m node st))"
    "dfs_dfs_deps_dom (Inr (m, ds, st)) \<Longrightarrow> visited st \<subseteq> visited (snd (dfs_deps m ds st))"
    for m :: "(string \<times> 'p element) list" and node ds st
  proof (induct m node st and m ds st rule: dfs_dfs_deps.pinduct)
    case (1 m node st)
    then show ?case
      by (auto simp: dfs.psimps enter_def leave_def split: prod.splits option.splits)
  next
    case (2 m st)
    then show ?case by (simp add: dfs_deps.psimps)
  next
    case (3 m dep ds st)
    obtain r st' where d: "dfs m dep st = (r, st')" by (cases "dfs m dep st")
    have a: "visited st \<subseteq> visited st'" using 3(2) d by simp
    show ?case
    proof (cases "js_truthy r")
      case True
      then show ?thesis using 3(1) a d by (simp add: dfs_deps.psimps)
    next
      case False
      have "visited st' \<subseteq> visited (snd (dfs_deps m ds st'))"
        using 3(3)[OF d[symmetric] False] .
      then show ?thesis using 3(1) a d False by (auto simp: dfs_deps.psimps)
    qed
  qed
  have A: "map_of m node = None \<Longrightarrow>
             card (fst ` set m - insert node V) = card (fst ` set m - V)"
    for m :: "(string \<times> 'p element) list" and node V
    by (simp add: map_of_eq_None_iff)
  have B: "map_of m node = Some e \<Longrightarrow> node \<notin> V \<Longrightarrow>
             card (fst ` set m - insert node V) < card (fst ` set m - V)"
    for m :: "(string \<times> 'p element) list" and node V e
  proof -
    assume "map_of m node = Some e" "node \<notin> V"
    then have "node \<in> fst ` set m - V"
      by (metis DiffI map_of_eq_None_iff option.distinct(1))
    then have "fst ` set m - insert node V \<subset> fst ` set m - V" by blast
    then show ?thesis by (simp add: psubset_card_mono)
  qed
  have C: "(x, y) = dfs m dep st \<Longrightarrow> dfs_dfs_deps_dom (Inl (m, dep, st)) \<Longrightarrow>
             card (fst ` set m - visited y) \<le> card (fst ` set m - visited st)"
    for m :: "(string \<times> 'p element) list" and x y dep st
  proof -
    assume xy: "(x, y) = dfs m dep st" and "dfs_dfs_deps_dom (Inl (m, dep, st))"
    then have "visited st \<subseteq> visited y" using mono(1)[of m dep st] by (metis snd_conv)
    then have "fst ` set m - visited y \<subseteq> fst ` set m - visited st" by blast
    then show ?thesis by (simp add: card_mono)
  qed
  show ?thesis
    apply (relation "measures [\<lambda>x. case x of
        Inl (m, node, st) \<Rightarrow> card (fst ` set m - visited st)
      | Inr (m, ds, st) \<Rightarrow> card (fst ` set m - visited st),
      \<lambda>x. case x of Inl _ \<Rightarrow> 1 | Inr (m, ds, st) \<Rightarrow> 2 * length ds]")
       apply simp
      apply (auto simp: enter_def node_deps_def split: option.splits)
    subgoal by (simp add: A)
    subgoal using B by blast
    subgoal using B by blast
    subgoal using C by (meson le_neq_implies_less)
    done
qed

declare dfs.simps [simp del]

text \<open>The loop of \<open>detectCycle\<close> over \<open>this.elementMap.keys()\<close>.\<close>

fun detect_loop :: "(string \<times> 'p element) list \<Rightarrow> string list \<Rightarrow> dfs_state \<Rightarrow> string" where
  "detect_loop m [] st = ''Unknown cycle detected''"
| "detect_loop m (elementName # ks) st =
     (if elementName \<notin> visited st
      then (case dfs m elementName st of
              (cycle, st') \<Rightarrow>
                if js_truthy cycle then (case cycle of Some c \<Rightarrow> c | None \<Rightarrow> [])
                else detect_loop m ks st')
      else detect_loop m ks st)"

definition detectCycle :: "'p resolver \<Rightarrow> string" where
  "detectCycle r =
     detect_loop (elementMap r) (map fst (elementMap r))
       \<lparr>visited = {}, recursionStack = {}, path = []\<rparr>"

text \<open>
  \<open>resolveExecutionOrder\<close>: the outcome of the call, and the resolver afterwards
  (\<open>topologicalSort\<close> has overwritten \<open>this.inDegree\<close>).
\<close>

definition resolveExecutionOrder ::
  "'p resolver \<Rightarrow> (error + 'p element option list) \<times> 'p resolver" where
  "resolveExecutionOrder r =
     (case topologicalSort r of
        (result, deg') \<Rightarrow>
          (if length result \<noteq> length (elements r)
           then Inl (DependencyError (''Circular dependency detected: '' @ detectCycle r))
           else Inr result,
           r\<lparr>inDegree := deg'\<rparr>))"

text \<open>Constructing the resolver and asking it for the order, as the caller does.\<close>

definition resolve :: "'p element list \<Rightarrow> error + 'p element option list" where
  "resolve es =
     (case new_DependencyResolver es of
        Inl err \<Rightarrow> Inl err
      | Inr r \<Rightarrow> fst (resolveExecutionOrder r))"


section \<open>Context engine (context.ts)\<close>

text \<open>
  JavaScript values as they occur in the context: \<open>undefined\<close>, \<open>null\<close>, booleans,
  numbers, strings, plain objects and built-in functions.

  \<^item> A number is a 32-bit integer (read with \<^const>\<open>sint\<close>): on these, \<open>String(n)\<close> is the
    decimal numeral. Other numbers (fractions, \<open>NaN\<close>, magnitudes that JavaScript prints
    with an exponent) are outside the model.
  \<^item> A plain object is the association list of its own enumerable properties in
    insertion order; its prototype is \<open>Object.prototype\<close>, whose members it inherits
    (\<open>js_in\<close> and \<open>js_prop\<close> below).
  \<^item> \<open>JFun name\<close> is the built-in function of that name: the values of the inherited
    members are such functions.
  \<^item> Arrays and instances of classes are outside the model.
\<close>

datatype jsval =
    JUndefined
  | JNull
  | JBool bool
  | JNum "32 word"
  | JStr string
  | JObj "(string \<times> jsval) list"
  | JFun string

text \<open>
  The properties of \<open>Object.prototype\<close>, which every plain object inherits: the
  constructor \<open>Object\<close>, ten methods, and the accessor \<open>__proto__\<close>, which on
  \<open>Object.prototype\<close> itself reads \<open>null\<close>.
\<close>

definition Object_prototype :: "(string \<times> jsval) list" where
  "Object_prototype =
     [(''constructor'', JFun ''Object''),
      (''__defineGetter__'', JFun ''__defineGetter__''),
      (''__defineSetter__'', JFun ''__defineSetter__''),
      (''hasOwnProperty'', JFun ''hasOwnProperty''),
      (''__lookupGetter__'', JFun ''__lookupGetter__''),
      (''__lookupSetter__'', JFun ''__lookupSetter__''),
      (''isPrototypeOf'', JFun ''isPrototypeOf''),
      (''propertyIsEnumerable'', JFun ''propertyIsEnumerable''),
      (''toString'', JFun ''toString''),
      (''valueOf'', JFun ''valueOf''),
      (''__proto__'', JNull),
      (''toLocaleString'', JFun ''toLocaleString'')]"

text \<open>\<open>key in obj\<close> for a plain object: an own property or an inherited one.\<close>

definition js_in :: "string \<Rightarrow> (string \<times> jsval) list \<Rightarrow> bool" where
  "js_in key obj = (key \<in> fst ` set obj \<or> key \<in> fst ` set Object_prototype)"

text \<open>
  \<open>obj[key]\<close> for a plain object: the own property, else the inherited one (\<open>__proto__\<close>
  reads the prototype itself), else \<open>undefined\<close>.
\<close>

definition js_prop :: "(string \<times> jsval) list \<Rightarrow> string \<Rightarrow> jsval" where
  "js_prop obj key =
     (case map_of obj key of
        Some v \<Rightarrow> v
      | None \<Rightarrow>
          if key = ''__proto__'' then JObj Object_prototype
          else (case map_of Object_prototype key of Some f \<Rightarrow> f | None \<Rightarrow> JUndefined))"

definition is_lower :: "char \<Rightarrow> bool" where
  "is_lower c = (97 \<le> (of_char c :: nat) \<and> (of_char c :: nat) \<le> 122)"

definition is_upper :: "char \<Rightarrow> bool" where
  "is_upper c = (65 \<le> (of_char c :: nat) \<and> (of_char c :: nat) \<le> 90)"

definition is_digit :: "char \<Rightarrow> bool" where
  "is_digit c = (48 \<le> (of_char c :: nat) \<and> (of_char c :: nat) \<le> 57)"

definition is_alnum :: "char \<Rightarrow> bool" where
  "is_alnum c = (is_lower c \<or> is_upper c \<or> is_digit c)"

text \<open>The regular expression classes \<open>\w\<close>, \<open>[\w.]\<close> and \<open>\s\<close> (on code units below 256).\<close>

definition is_word :: "char \<Rightarrow> bool" where
  "is_word c = (is_alnum c \<or> c = CHR ''_'')"

definition is_path_char :: "char \<Rightarrow> bool" where
  "is_path_char c = (is_word c \<or> c = CHR ''.'')"

definition is_space :: "char \<Rightarrow> bool" where
  "is_space c = ((of_char c :: nat) \<in> {9, 10, 11, 12, 13, 32, 160})"

text \<open>\<open>validateCamelCase\<close>: the regular expression \<open>^[a-z][a-zA-Z0-9]*$\<close>.\<close>

definition validateCamelCase :: "string \<Rightarrow> bool" where
  "validateCamelCase key =
     (case key of [] \<Rightarrow> False | c # cs \<Rightarrow> is_lower c \<and> list_all is_alnum cs)"

text \<open>
  \<open>ReadonlyContext\<close>. Its constructor normalises the keys of the element descriptor, drops
  \<open>pipeline\<close> and flattens the rest with the library \<open>flattie\<close>; here the constructor starts
  from that flat object. \<open>flattenPrimitives\<close> keeps the entries whose value is a string, a
  number, a boolean or \<open>null\<close>.
\<close>

definition is_primitive :: "jsval \<Rightarrow> bool" where
  "is_primitive v =
     (case v of JStr _ \<Rightarrow> True | JNum _ \<Rightarrow> True | JBool _ \<Rightarrow> True | JNull \<Rightarrow> True | _ \<Rightarrow> False)"

definition flattenPrimitives :: "(string \<times> jsval) list \<Rightarrow> (string \<times> jsval) list" where
  "flattenPrimitives flat = filter (\<lambda>kv. is_primitive (snd kv)) flat"

record runtime_context =
  data :: "(string \<times> jsval) list"
  assignedKeys :: "string list"
  readonlyKeys :: "string list"

record pipeline_context =
  readonlyContext :: "(string \<times> jsval) list"
  runtimeContext :: runtime_context

definition new_PipelineContext :: "(string \<times> jsval) list \<Rightarrow> pipeline_context" where
  "new_PipelineContext flat =
     (let ro = flattenPrimitives flat
      in \<lparr>readonlyContext = ro,
          runtimeContext = \<lparr>data = [], assignedKeys = [], readonlyKeys = map fst ro\<rparr>\<rparr>)"

text \<open>
  Modelled from the spec: \<open>dset\<close>, the function of the npm package of that name that
  \<open>RuntimeContext.set\<close> calls; its code is not part of the repository. The spec: the value
  is stored at the dot-path in a nested structure, and writing \<open>a.b\<close> creates nested
  containers, not a literal key containing a dot. What a write below a value that is already
  there does, the spec leaves open; there the steps are those of the package as published
  (version 3), for the keys that \<open>set\<close> lets through:

  \<^item> a segment \<open>__proto__\<close>, \<open>constructor\<close> or \<open>prototype\<close> ends the write where it
    stands, without an error;
  \<^item> the last segment is assigned the value;
  \<^item> at any other segment, a value whose \<open>typeof\<close> is \<open>object\<close> is kept and stepped into,
    anything else (nothing, a primitive, a function) is replaced by a fresh object;
  \<^item> \<open>null\<close> has the \<open>typeof\<close> \<open>object\<close>: it is kept, and the access to the next segment
    throws a \<open>TypeError\<close>. Every step before it has kept what was there, so the store is
    as it was.

  \<open>None\<close> stands for the \<open>TypeError\<close>.
\<close>

definition reserved_key :: "string \<Rightarrow> bool" where
  "reserved_key k = (k = ''__proto__'' \<or> k = ''constructor'' \<or> k = ''prototype'')"

fun dset_path ::
  "(string \<times> jsval) list \<Rightarrow> string list \<Rightarrow> jsval \<Rightarrow> (string \<times> jsval) list option" where
  "dset_path t [] v = Some t"
| "dset_path t [k] v = (if reserved_key k then Some t else Some (AList.update k v t))"
| "dset_path t (k # k' # ks) v =
     (if reserved_key k then Some t
      else (case map_of t k of
              Some (JObj x) \<Rightarrow>
                map_option (\<lambda>x'. AList.update k (JObj x') t) (dset_path x (k' # ks) v)
            | Some JNull \<Rightarrow> if reserved_key k' then Some t else None
            | _ \<Rightarrow>
                map_option (\<lambda>x'. AList.update k (JObj x') t) (dset_path [] (k' # ks) v)))"

definition dset ::
  "(string \<times> jsval) list \<Rightarrow> string \<Rightarrow> jsval \<Rightarrow> (string \<times> jsval) list option" where
  "dset obj key v = dset_path obj (split_on CHR ''.'' key) v"

text \<open>
  Modelled from the spec: \<open>dlv\<close>, the function of the npm package of that name behind
  \<open>get\<close>, \<open>has\<close> and \<open>resolvePath\<close>; its code is not part of the repository. The spec:
  a read-only dot-path traversal into the nested structure, absence giving \<open>undefined\<close>.
  A step reads a property of a plain object as JavaScript does (\<^const>\<open>js_prop\<close>); a step
  into anything else gives \<open>undefined\<close> (the built-in members of strings, numbers, booleans
  and functions are not modelled).
\<close>

fun dlv_path :: "jsval \<Rightarrow> string list \<Rightarrow> jsval" where
  "dlv_path v [] = v"
| "dlv_path v (k # ks) =
     (case v of
        JObj obj \<Rightarrow> dlv_path (js_prop obj k) ks
      | _ \<Rightarrow> JUndefined)"

definition dlv :: "(string \<times> jsval) list \<Rightarrow> string \<Rightarrow> jsval" where
  "dlv obj key = dlv_path (JObj obj) (split_on CHR ''.'' key)"

text \<open>
  The string form of the \<open>TypeError\<close> that \<open>dset\<close> throws, as \<open>${error}\<close> gives it. The
  language fixes the name; the message that follows it is worded by the JavaScript engine
  and is not part of the model.
\<close>

definition null_access_error :: string where
  "null_access_error = ''TypeError''"

text \<open>
  \<open>RuntimeContext.set\<close>: the three guards in the order of the source, then the \<open>try\<close>
  block. When \<open>dset\<close> throws, the key is not added to \<open>assignedKeys\<close> and the \<open>catch\<close>
  throws the \<open>ContextError\<close>.
\<close>

definition RuntimeContext_set :: "runtime_context \<Rightarrow> string \<Rightarrow> jsval \<Rightarrow> error + runtime_context" where
  "RuntimeContext_set rc key v =
     (case find (\<lambda>part. \<not> validateCamelCase part) (split_on CHR ''.'' key) of
        Some part \<Rightarrow>
          Inl (ContextError (''Invalid key format: '' @ dq @ part @ dq @ ''. Keys must be camelCase.'')
                 (Some key))
      | None \<Rightarrow>
          if key \<in> set (readonlyKeys rc)
          then Inl (ContextError (''Cannot set runtime variable '' @ dq @ key @ dq
                      @ '': conflicts with readonly context variable'') None)
          else if key \<in> set (assignedKeys rc)
          then Inl (ContextError (''Key '' @ dq @ key @ dq @ '' already exists in runtime context'')
                      (Some key))
          else (case dset (data rc) key v of
                  Some d \<Rightarrow> Inr (rc\<lparr>data := d, assignedKeys := set_add key (assignedKeys rc)\<rparr>)
                | None \<Rightarrow>
                    Inl (ContextError (''Failed to set '' @ dq @ key @ dq @ '': '' @ null_access_error)
                           (Some key))))"

definition RuntimeContext_get :: "runtime_context \<Rightarrow> string \<Rightarrow> jsval" where
  "RuntimeContext_get rc key = dlv (data rc) key"

definition RuntimeContext_has :: "runtime_context \<Rightarrow> string \<Rightarrow> bool" where
  "RuntimeContext_has rc key = (dlv (data rc) key \<noteq> JUndefined)"

text \<open>\<open>PipelineContext\<close>: \<open>set\<close> and \<open>get\<close> go to the runtime context.\<close>

definition PipelineContext_set :: "pipeline_context \<Rightarrow> string \<Rightarrow> jsval \<Rightarrow> error + pipeline_context" where
  "PipelineContext_set ctx key v =
     (case RuntimeContext_set (runtimeContext ctx) key v of
        Inl err \<Rightarrow> Inl err
      | Inr rc \<Rightarrow> Inr (ctx\<lparr>runtimeContext := rc\<rparr>))"

definition PipelineContext_get :: "pipeline_context \<Rightarrow> string \<Rightarrow> jsval" where
  "PipelineContext_get ctx key = RuntimeContext_get (runtimeContext ctx) key"


subsection \<open>Templates\<close>

text \<open>
  The part \<open>\s*([\w.]+)\s*\}\}\<close> shared by the regular expressions of the module, matched
  at the start of the given text: the captured path and the text after the match. The three
  character classes and the brace are disjoint, so greedy matching never backtracks.
\<close>

definition match_body :: "string \<Rightarrow> (string \<times> string) option" where
  "match_body r =
     (let r1 = dropWhile is_space r;
          p = takeWhile is_path_char r1;
          r3 = dropWhile is_space (dropWhile is_path_char r1)
      in if p = [] then None
         else (case r3 of
                 c1 # c2 # rest \<Rightarrow>
                   if c1 = CHR ''}'' \<and> c2 = CHR ''}'' then Some (p, rest) else None
               | _ \<Rightarrow> None))"

text \<open>
  \<open>/\$\{\{\s*([\w.]+)\s*\}\}/\<close> matched at the start of the text: the full match, the
  captured path and the text after the match.
\<close>

definition match_template_at :: "string \<Rightarrow> (string \<times> string \<times> string) option" where
  "match_template_at s =
     (case s of
        a # b # c # r \<Rightarrow>
          if a = CHR ''$'' \<and> b = CHR ''{'' \<and> c = CHR ''{''
          then (case match_body r of
                  None \<Rightarrow> None
                | Some (p, rest) \<Rightarrow> Some (take (length s - length rest) s, p, rest))
          else None
      | _ \<Rightarrow> None)"

text \<open>
  The successive results of \<open>templateRegex.exec(template)\<close> with the \<open>g\<close> flag: each search
  resumes where the last match ended. Every result is (\<open>match[0]\<close>, \<open>match[1]\<close>).
\<close>

function find_matches :: "string \<Rightarrow> (string \<times> string) list" where
  "find_matches s =
     (if s = [] then []
      else (case match_template_at s of
              None \<Rightarrow> find_matches (tl s)
            | Some (fullMatch, p, rest) \<Rightarrow> (fullMatch, p) # find_matches rest))"
  by pat_completeness auto
termination
proof -
  have body: "match_body r = Some (p, rest) \<Longrightarrow> length rest < length r" for r p rest
  proof -
    assume a: "match_body r = Some (p, rest)"
    let ?r3 = "dropWhile is_space (dropWhile is_path_char (dropWhile is_space r))"
    have "length ?r3 \<le> length r"
      by (meson length_dropWhile_le order_trans)
    moreover have "length rest < length ?r3"
      using a by (auto simp: match_body_def Let_def split: if_splits list.splits)
    ultimately show ?thesis by simp
  qed
  have tmpl: "match_template_at s = Some (f, p, rest) \<Longrightarrow> length rest < length s" for s f p rest
    by (auto simp: match_template_at_def split: list.splits if_splits option.splits dest!: body)
  show ?thesis
    by (relation "measure length") (auto dest: tmpl)
qed

text \<open>\<open>isAssignmentExpression\<close> and \<open>parseAssignmentExpression\<close>:
  \<open>/^\$>\{\{\s*([\w.]+)\s*\}\}$/\<close>, where \<open>$\<close> is the end of the input.\<close>

definition parseAssignmentExpression :: "string \<Rightarrow> string option" where
  "parseAssignmentExpression expr =
     (case expr of
        a # b # c # d # r \<Rightarrow>
          if a = CHR ''$'' \<and> b = CHR ''>'' \<and> c = CHR ''{'' \<and> d = CHR ''{''
          then (case match_body r of
                  None \<Rightarrow> None
                | Some (p, rest) \<Rightarrow> if rest = [] then Some p else None)
          else None
      | _ \<Rightarrow> None)"

definition isAssignmentExpression :: "string \<Rightarrow> bool" where
  "isAssignmentExpression str = (parseAssignmentExpression str \<noteq> None)"

text \<open>
  \<open>result.replace(fullMatch, stringValue)\<close> with a string pattern: the first occurrence of
  the pattern is replaced, and in the replacement text \<open>$$\<close> stands for a dollar sign,
  \<open>$&\<close> for the matched text, \<open>$`\<close> for the text before the match and \<open>$'\<close> for the
  text after it.
\<close>

fun find_first :: "string \<Rightarrow> string \<Rightarrow> (string \<times> string) option" where
  "find_first pat [] = (if pat = [] then Some ([], []) else None)"
| "find_first pat (c # cs) =
     (if take (length pat) (c # cs) = pat then Some ([], drop (length pat) (c # cs))
      else (case find_first pat cs of
              None \<Rightarrow> None
            | Some (pre, post) \<Rightarrow> Some (c # pre, post)))"

fun expand_replacement :: "string \<Rightarrow> string \<Rightarrow> string \<Rightarrow> string \<Rightarrow> string" where
  "expand_replacement matched pre post [] = []"
| "expand_replacement matched pre post [c] = [c]"
| "expand_replacement matched pre post (c # d # r) =
     (if c = CHR ''$'' \<and> d = CHR ''$'' then CHR ''$'' # expand_replacement matched pre post r
      else if c = CHR ''$'' \<and> d = CHR ''&'' then matched @ expand_replacement matched pre post r
      else if c = CHR ''$'' \<and> d = CHR 0x60 then pre @ expand_replacement matched pre post r
      else if c = CHR ''$'' \<and> d = CHR 0x27 then post @ expand_replacement matched pre post r
      else c # expand_replacement matched pre post (d # r))"

definition js_replace :: "string \<Rightarrow> string \<Rightarrow> string \<Rightarrow> string" where
  "js_replace str pat replacement =
     (case find_first pat str of
        None \<Rightarrow> str
      | Some (pre, post) \<Rightarrow> pre @ expand_replacement pat pre post replacement @ post)"

text \<open>
  \<open>String(n)\<close> for an integer \<open>n\<close> of magnitude below \<open>10\<^sup>2\<^sup>1\<close>, where it is the decimal
  numeral. It is only applied to what a 32-bit word holds: the numbers of the model and the
  exit codes of processes.
\<close>

function show_nat :: "nat \<Rightarrow> string" where
  "show_nat n =
     (if n < 10 then [char_of (48 + n)]
      else show_nat (n div 10) @ [char_of (48 + n mod 10)])"
  by pat_completeness auto
termination
  by (relation "measure id") auto

definition show_int :: "int \<Rightarrow> string" where
  "show_int i = (if i < 0 then CHR ''-'' # show_nat (nat (- i)) else show_nat (nat i))"

text \<open>
  \<open>String(value)\<close>. For a built-in function it is the text
  \<open>function name() { [native code] }\<close> (the language fixes its form, the engine its
  white space); for a plain object it is \<open>[object Object]\<close>, which \<open>processTemplate\<close>
  never asks for.
\<close>

definition js_String :: "jsval \<Rightarrow> string" where
  "js_String v =
     (case v of
        JStr str \<Rightarrow> str
      | JNum n \<Rightarrow> show_int (sint n)
      | JBool b \<Rightarrow> (if b then ''true'' else ''false'')
      | JNull \<Rightarrow> ''null''
      | JUndefined \<Rightarrow> ''undefined''
      | JFun f \<Rightarrow> ''function '' @ f @ ''() { [native code] }''
      | JObj _ \<Rightarrow> ''[object Object]'')"

text \<open>
  \<open>resolvePath\<close>: \<open>context[path]\<close> when \<open>path in context\<close>, the inherited properties
  included, and the nested path otherwise.
\<close>

definition resolvePath :: "(string \<times> jsval) list \<Rightarrow> string \<Rightarrow> jsval" where
  "resolvePath context p = (if js_in p context then js_prop context p else dlv context p)"

text \<open>\<open>{ ...readonlyCtx, ...runtimeCtx }\<close>.\<close>

definition spread :: "(string \<times> jsval) list \<Rightarrow> (string \<times> jsval) list \<Rightarrow> (string \<times> jsval) list" where
  "spread a b = foldl (\<lambda>acc kv. AList.update (fst kv) (snd kv) acc) a b"

text \<open>
  One turn of the \<open>while\<close> loop of \<open>processTemplate\<close>, for one result of \<open>exec\<close>: the new
  \<open>result\<close>, or the \<open>TemplateError\<close> thrown. The \<open>catch\<close> rethrows a \<open>TemplateError\<close>, and
  nothing else is thrown inside the \<open>try\<close>.
\<close>

definition expand_match ::
  "(string \<times> jsval) list \<Rightarrow> string \<Rightarrow> string \<times> string \<Rightarrow> error + string" where
  "expand_match mergedContext result m =
     (case m of (fullMatch, variablePath) \<Rightarrow>
        if variablePath = [] then Inr result
        else (case find (\<lambda>part. \<not> validateCamelCase part) (split_on CHR ''.'' variablePath) of
                Some part \<Rightarrow>
                  Inl (TemplateError (''Invalid key format: '' @ dq @ part @ dq
                         @ ''. Keys must be camelCase.'') (Some variablePath))
              | None \<Rightarrow>
                  (case resolvePath mergedContext variablePath of
                     JUndefined \<Rightarrow>
                       Inl (TemplateError (''Variable '' @ dq @ variablePath @ dq
                              @ '' is undefined in context'') (Some variablePath))
                   | JObj _ \<Rightarrow>
                       Inl (TemplateError (''Cannot expand object value for '' @ dq @ variablePath @ dq
                              @ ''. Only primitive values are allowed in templates.'')
                              (Some variablePath))
                   | JStr str \<Rightarrow> Inr (js_replace result fullMatch str)
                   | value \<Rightarrow> Inr (js_replace result fullMatch (js_String value)))))"

fun expand_matches ::
  "(string \<times> jsval) list \<Rightarrow> string \<Rightarrow> (string \<times> string) list \<Rightarrow> error + string" where
  "expand_matches mergedContext result [] = Inr result"
| "expand_matches mergedContext result (m # ms) =
     (case expand_match mergedContext result m of
        Inl err \<Rightarrow> Inl err
      | Inr result' \<Rightarrow> expand_matches mergedContext result' ms)"

definition processTemplate ::
  "string \<Rightarrow> (string \<times> jsval) list \<Rightarrow> (string \<times> jsval) list \<Rightarrow> error + string" where
  "processTemplate template readonlyCtx runtimeCtx =
     (if isAssignmentExpression template then Inr template
      else (let conflicts = filter (\<lambda>key. js_in key readonlyCtx) (map fst runtimeCtx)
            in if conflicts \<noteq> []
               then Inl (TemplateError (''Runtime context conflicts with readonly context keys: ''
                           @ join '', '' conflicts) None)
               else expand_matches (spread readonlyCtx runtimeCtx) template (find_matches template)))"

definition PipelineContext_processTemplate :: "pipeline_context \<Rightarrow> string \<Rightarrow> error + string" where
  "PipelineContext_processTemplate ctx template =
     processTemplate template (readonlyContext ctx) (data (runtimeContext ctx))"


section \<open>Pseudo-terminal automation (\<open>runWithPty\<close> in tools/execute-bash-command.ts)\<close>

record prompt =
  match :: string
  response :: string

text \<open>\<open>s.includes(sub)\<close> and \<open>s.endsWith(suffix)\<close>.\<close>

fun js_includes :: "string \<Rightarrow> string \<Rightarrow> bool" where
  "js_includes [] sub = (sub = [])"
| "js_includes (c # cs) sub = (take (length sub) (c # cs) = sub \<or> js_includes cs sub)"

definition endsWith :: "string \<Rightarrow> string \<Rightarrow> bool" where
  "endsWith s suffix = (length suffix \<le> length s \<and> drop (length s - length suffix) s = suffix)"

text \<open>
  The variables of \<open>runWithPty\<close> that its \<open>onData\<close> handler updates, with two logs of what
  the handler sends out: \<open>written\<close>, the arguments of the calls of \<open>pty.write\<close> in order, and
  \<open>echoed\<close>, what went to \<open>process.stdout\<close>.
\<close>

record pty_state =
  buffer :: string
  visibleBuffer :: string
  nextPromptIndex :: nat
  written :: "string list"
  echoed :: string

definition pty_init :: pty_state where
  "pty_init = \<lparr>buffer = [], visibleBuffer = [], nextPromptIndex = 0, written = [], echoed = []\<rparr>"

definition toSend :: "string \<Rightarrow> string" where
  "toSend resp = (if endsWith resp [NL] \<or> endsWith resp [CR] then resp else resp @ [NL])"

text \<open>
  The handler given to \<open>pty.onData\<close>, for one chunk. \<open>stripVT\<close> (a regular-expression
  replacement of utils/ansi-strip.ts) is a parameter: the handler only appends its result.
  \<open>prompts[nextPromptIndex]\<close> is \<open>undefined\<close>, hence falsy, past the end of the list.
\<close>

definition onData ::
  "(string \<Rightarrow> string) \<Rightarrow> bool \<Rightarrow> prompt list \<Rightarrow> pty_state \<Rightarrow> string \<Rightarrow> pty_state" where
  "onData stripVT quiet prompts st chunk =
     (let st1 = st\<lparr>buffer := buffer st @ chunk,
                    visibleBuffer := visibleBuffer st @ stripVT chunk,
                    echoed := (if quiet then echoed st else echoed st @ chunk)\<rparr>
      in if nextPromptIndex st1 < length prompts
            \<and> js_includes (visibleBuffer st1) (match (prompts ! nextPromptIndex st1))
         then st1\<lparr>written := written st1 @ [toSend (response (prompts ! nextPromptIndex st1))],
                 nextPromptIndex := nextPromptIndex st1 + 1\<rparr>
         else st1)"

text \<open>The state after a sequence of chunks has arrived.\<close>

definition pty_run ::
  "(string \<Rightarrow> string) \<Rightarrow> bool \<Rightarrow> prompt list \<Rightarrow> string list \<Rightarrow> pty_state" where
  "pty_run stripVT quiet prompts chunks = foldl (onData stripVT quiet prompts) pty_init chunks"

text \<open>
  The handler given to \<open>pty.onExit\<close>: \<open>event.exitCode ?? 0\<close>, and the promise rejects or
  resolves with the raw buffer. The exit code of a process is an unsigned integer of at
  most 32 bits (read with \<^const>\<open>uint\<close>).
\<close>

definition onExit :: "bool \<Rightarrow> pty_state \<Rightarrow> 32 word option \<Rightarrow> error + string" where
  "onExit exitOnNonZeroCode st exitCode =
     (let code = (case exitCode of None \<Rightarrow> 0 | Some c \<Rightarrow> c)
      in if code \<noteq> 0 \<and> exitOnNonZeroCode
         then Inl (Error (''Command exited with code '' @ show_int (uint code)))
         else Inr (buffer st))"

definition runWithPty ::
  "(string \<Rightarrow> string) \<Rightarrow> bool \<Rightarrow> prompt list \<Rightarrow> bool \<Rightarrow> string list \<Rightarrow> 32 word option
     \<Rightarrow> error + string" where
  "runWithPty stripVT quiet prompts exitOnNonZeroCode chunks exitCode =
     onExit exitOnNonZeroCode (pty_run stripVT quiet prompts chunks) exitCode"

section \<open>Concurrency pool (utils/promise-pool.ts)\<close>

text \<open>
  JavaScript runs one piece of code at a time: a worker runs from one \<open>await\<close> to the next
  without interruption, and the only freedom is the order in which the awaited tasks
  settle. A task is given by how its promise settles: \<open>Inr v\<close> resolves with \<open>v\<close>,
  \<open>Inl e\<close> rejects with \<open>e\<close>.
\<close>

datatype worker = Awaiting nat | Returned | Threw

text \<open>
  \<open>results\<close> and \<open>taskIndex\<close> are the variables of \<open>runPromisePool\<close>; \<open>workers\<close> says where
  each worker stands; \<open>claimed\<close> logs every index whose task was called, in order;
  \<open>rejected\<close> is the first rejection, with which \<open>Promise.all\<close> rejects.
\<close>

record 'a pool_state =
  results :: "'a option list"
  taskIndex :: nat
  workers :: "worker list"
  claimed :: "nat list"
  rejected :: "error option"

text \<open>
  The worker \<open>w\<close> from the top of its \<open>while (true)\<close> loop to its next \<open>await\<close> or to its
  \<open>break\<close>: \<open>currentIndex = taskIndex++\<close>, the bound check, the call of the task.
\<close>

definition claim :: "(error + 'a) list \<Rightarrow> nat \<Rightarrow> 'a pool_state \<Rightarrow> 'a pool_state" where
  "claim tasks w st =
     (let currentIndex = taskIndex st;
          st1 = st\<lparr>taskIndex := taskIndex st + 1\<rparr>
      in if currentIndex \<ge> length tasks
         then st1\<lparr>workers := (workers st1)[w := Returned]\<rparr>
         else st1\<lparr>workers := (workers st1)[w := Awaiting currentIndex],
                  claimed := claimed st1 @ [currentIndex]\<rparr>)"

text \<open>
  The task awaited by worker \<open>w\<close> settles (\<open>None\<close> when \<open>w\<close> is not a worker awaiting a
  task): on a value, \<open>results[currentIndex]\<close> is assigned and the loop goes round; on a
  rejection the \<open>await\<close> throws and the worker's promise rejects.
\<close>

definition settle :: "(error + 'a) list \<Rightarrow> nat \<Rightarrow> 'a pool_state \<Rightarrow> 'a pool_state option" where
  "settle tasks w st =
     (if w < length (workers st)
      then (case workers st ! w of
              Awaiting i \<Rightarrow>
                (case tasks ! i of
                   Inr v \<Rightarrow> Some (claim tasks w (st\<lparr>results := (results st)[i := Some v]\<rparr>))
                 | Inl e \<Rightarrow>
                     Some (st\<lparr>workers := (workers st)[w := Threw],
                              rejected := (case rejected st of None \<Rightarrow> Some e | Some e' \<Rightarrow> Some e')\<rparr>))
            | _ \<Rightarrow> None)
      else None)"

text \<open>
  \<open>Array.from({ length: poolSize }, () => worker())\<close>: the workers start one after the
  other, each running to its first \<open>await\<close>. \<open>new Array(tasks.length)\<close> is an array of
  holes (\<open>None\<close>).
\<close>

definition pool_init :: "(error + 'a) list \<Rightarrow> nat \<Rightarrow> 'a pool_state" where
  "pool_init tasks poolSize =
     foldl (\<lambda>st w. claim tasks w st)
       \<lparr>results = replicate (length tasks) None, taskIndex = 0,
        workers = replicate poolSize Returned, claimed = [], rejected = None\<rparr>
       [0..<poolSize]"

text \<open>A schedule names, step by step, the worker whose awaited task settles next.\<close>

fun pool_run :: "(error + 'a) list \<Rightarrow> nat list \<Rightarrow> 'a pool_state \<Rightarrow> 'a pool_state option" where
  "pool_run tasks [] st = Some st"
| "pool_run tasks (w # ws) st =
     (case settle tasks w st of None \<Rightarrow> None | Some st' \<Rightarrow> pool_run tasks ws st')"

text \<open>
  What \<open>await Promise.all(workers); return results\<close> yields in a state: a rejection as
  soon as one worker has thrown, the results once every worker has returned, nothing yet
  (\<open>None\<close>) otherwise.
\<close>

definition pool_outcome :: "'a pool_state \<Rightarrow> (error + 'a option list) option" where
  "pool_outcome st =
     (case rejected st of
        Some e \<Rightarrow> Some (Inl e)
      | None \<Rightarrow> if list_all (\<lambda>w. w = Returned) (workers st) then Some (Inr (results st)) else None)"

text \<open>
  \<open>runPromisePool\<close> under a schedule. The concurrency is an integer here, so of the first
  check only \<open>concurrency < 1\<close> remains. The outer \<open>None\<close>: the schedule is not one of this
  pool, or the promise is still pending after it.
\<close>

definition runPromisePool ::
  "(error + 'a) list \<Rightarrow> int \<Rightarrow> nat list \<Rightarrow> (error + 'a option list) option" where
  "runPromisePool tasks concurrency schedule =
     (if concurrency < 1 then Some (Inl (Error ''Concurrency must be a positive integer''))
      else if length tasks = 0 then Some (Inr [])
      else (case pool_run tasks schedule (pool_init tasks (min (nat concurrency) (length tasks))) of
              None \<Rightarrow> None
            | Some st \<Rightarrow> pool_outcome st))"


section \<open>The tool \<open>execute-bash-command\<close> (tools/execute-bash-command.ts)\<close>

text \<open>\<open>ExecuteBashCommandParams\<close>: an optional field is \<open>None\<close> when absent.\<close>

record exec_params =
  command :: string
  shell :: "string option"
  workingDirectory :: "string option"
  quiet :: "bool option"
  outputAssign :: "string option"
  exitOnNonZeroCode :: "bool option"
  interactivePrompts :: "prompt list option"

text \<open>Truthiness of an optional string and of an optional boolean.\<close>

definition truthy_str :: "string option \<Rightarrow> bool" where
  "truthy_str s = (case s of None \<Rightarrow> False | Some str \<Rightarrow> str \<noteq> [])"

definition truthy_bool :: "bool option \<Rightarrow> bool" where
  "truthy_bool b = (b = Some True)"

text \<open>
  What the operating system answers: whether a shell is installed, whether a directory
  exists, what a command run on a pseudo-terminal prints and how it exits, and the exit code,
  standard output and standard error of a command run by \<open>Bun.$\<close>.
\<close>

record shell_result =
  exitCode :: "32 word"
  stdout :: string
  stderr :: string

record world =
  shellAvailable :: "string \<Rightarrow> bool"
  directoryExists :: "string \<Rightarrow> bool"
  ptyOutput :: "string list \<Rightarrow> string option \<Rightarrow> string list \<times> 32 word option"
  shellOutput :: "string list \<Rightarrow> string option \<Rightarrow> shell_result"

text \<open>What \<open>execute\<close> does besides returning, in order.\<close>

datatype event =
    ProcessTemplate string
  | CheckShell string
  | CheckDirectory string
  | RunPty "string list"
  | RunShell "string list"

definition buildShellCommand :: "string \<Rightarrow> string \<Rightarrow> string list" where
  "buildShellCommand sh cmd =
     (if sh = ''bash'' then [''bash'', ''-c'', cmd]
      else if sh = ''zsh'' then [''zsh'', ''-c'', cmd]
      else if sh = ''fish'' then [''fish'', ''-c'', cmd]
      else [''bash'', ''-c'', cmd])"

definition sq :: string where "sq = [CHR 0x27]"

text \<open>\<open>`${error}`\<close> for an error object: its name, a colon and its message.\<close>

definition error_toString :: "error \<Rightarrow> string" where
  "error_toString e =
     (case e of
        DependencyError m \<Rightarrow> ''DependencyError: '' @ m
      | ContextError m _ \<Rightarrow> ''ContextError: '' @ m
      | TemplateError m _ \<Rightarrow> ''TemplateError: '' @ m
      | Error m \<Rightarrow> ''Error: '' @ m)"

definition js_trim :: "string \<Rightarrow> string" where
  "js_trim s = rev (dropWhile is_space (rev (dropWhile is_space s)))"

text \<open>
  The block under \<open>if (params.outputAssign)\<close>, the same in both branches:
  \<open>assignmentVar || params.outputAssign\<close> is the key, the non-empty lines of the trimmed
  output joined by newlines the value.
\<close>

definition store_output :: "pipeline_context \<Rightarrow> string \<Rightarrow> string \<Rightarrow> error + pipeline_context" where
  "store_output ctx oa output =
     (let outputKey = (case parseAssignmentExpression oa of
                         None \<Rightarrow> oa
                       | Some v \<Rightarrow> if v = [] then oa else v);
          ls = filter (\<lambda>line. line \<noteq> []) (split_on NL (js_trim output))
      in PipelineContext_set ctx outputKey (JStr (join [NL] ls)))"

definition assign_output ::
  "exec_params \<Rightarrow> pipeline_context \<Rightarrow> string \<Rightarrow> error + pipeline_context" where
  "assign_output params ctx output =
     (case outputAssign params of
        None \<Rightarrow> Inr ctx
      | Some oa \<Rightarrow> if oa = [] then Inr ctx else store_output ctx oa output)"

text \<open>
  \<open>params.interactivePrompts.map(...)\<close>: both fields of every prompt go through
  \<open>processTemplate\<close>, and the first failure throws.
\<close>

fun process_prompts :: "pipeline_context \<Rightarrow> prompt list \<Rightarrow> (error + prompt list) \<times> event list" where
  "process_prompts ctx [] = (Inr [], [])"
| "process_prompts ctx (p # ps) =
     (case PipelineContext_processTemplate ctx (match p) of
        Inl e \<Rightarrow> (Inl e, [ProcessTemplate (match p)])
      | Inr m \<Rightarrow>
          (case PipelineContext_processTemplate ctx (response p) of
             Inl e \<Rightarrow> (Inl e, [ProcessTemplate (match p), ProcessTemplate (response p)])
           | Inr r \<Rightarrow>
               (case process_prompts ctx ps of
                  (Inl e, evs) \<Rightarrow> (Inl e, ProcessTemplate (match p) # ProcessTemplate (response p) # evs)
                | (Inr ps', evs) \<Rightarrow>
                    (Inr (\<lparr>match = m, response = r\<rparr> # ps'),
                     ProcessTemplate (match p) # ProcessTemplate (response p) # evs))))"

text \<open>
  The body of the \<open>try\<close>: \<open>Inl (Inl text)\<close> is the error thrown by \<open>Bun.$\<close> on a non-zero
  exit code, an object with a \<open>stderr\<close> property; \<open>Inl (Inr e)\<close> is any other error.
\<close>

definition run_command ::
  "(string \<Rightarrow> string) \<Rightarrow> world \<Rightarrow> exec_params \<Rightarrow> pipeline_context \<Rightarrow> string \<Rightarrow> string
     \<Rightarrow> string option \<Rightarrow> ((string + error) + pipeline_context) \<times> event list" where
  "run_command stripVT w params ctx sh processedCommand cwd =
     (let shellCommand = buildShellCommand sh processedCommand;
          exitOnNonZero = (exitOnNonZeroCode params \<noteq> Some False);
          prompts = (case interactivePrompts params of None \<Rightarrow> [] | Some ps \<Rightarrow> ps)
      in if prompts \<noteq> []
         then (case process_prompts ctx prompts of
                 (Inl e, evs) \<Rightarrow> (Inl (Inr e), evs)
               | (Inr ps, evs) \<Rightarrow>
                   (case ptyOutput w shellCommand cwd of
                      (chunks, code) \<Rightarrow>
                        (case runWithPty stripVT (truthy_bool (quiet params)) ps exitOnNonZero chunks code of
                           Inl e \<Rightarrow> (Inl (Inr e), evs @ [RunPty shellCommand])
                         | Inr output \<Rightarrow>
                             (case assign_output params ctx output of
                                Inl e \<Rightarrow> (Inl (Inr e), evs @ [RunPty shellCommand])
                              | Inr ctx' \<Rightarrow> (Inr ctx', evs @ [RunPty shellCommand])))))
         else (let res = shellOutput w shellCommand cwd
               in if exitOnNonZero \<and> exitCode res \<noteq> 0
                  then (Inl (Inl (stderr res)), [RunShell shellCommand])
                  else (case assign_output params ctx (stdout res) of
                          Inl e \<Rightarrow> (Inl (Inr e), [RunShell shellCommand])
                        | Inr ctx' \<Rightarrow> (Inr ctx', [RunShell shellCommand]))))"

text \<open>The \<open>catch\<close> of \<open>execute\<close>: every error of the \<open>try\<close> becomes a plain \<open>Error\<close>.\<close>

definition wrap_failure :: "string + error \<Rightarrow> error" where
  "wrap_failure f =
     (case f of
        Inl err_text \<Rightarrow> Error (''Command execution failed: '' @ err_text)
      | Inr e \<Rightarrow> Error (''Command execution failed: '' @ error_toString e))"

text \<open>
  The part of \<open>execute\<close> after the templates are processed: the two checks and the \<open>try\<close>.
\<close>

definition checks_and_run ::
  "(string \<Rightarrow> string) \<Rightarrow> world \<Rightarrow> exec_params \<Rightarrow> pipeline_context \<Rightarrow> string
     \<Rightarrow> string option \<Rightarrow> (error + unit) \<times> pipeline_context \<times> event list" where
  "checks_and_run stripVT w params ctx processedCommand cwd =
     (let sh = (case shell params of None \<Rightarrow> ''bash'' | Some s \<Rightarrow> if s = [] then ''bash'' else s);
          ev1 = (if truthy_str (shell params) then [CheckShell sh] else [])
      in if truthy_str (shell params) \<and> \<not> shellAvailable w sh
         then (Inl (Error (''Shell '' @ sq @ sh @ sq @ '' is not installed on this system'')), ctx, ev1)
         else (case cwd of
                 None \<Rightarrow>
                   (case run_command stripVT w params ctx sh processedCommand None of
                      (Inl f, evs) \<Rightarrow> (Inl (wrap_failure f), ctx, ev1 @ evs)
                    | (Inr ctx', evs) \<Rightarrow> (Inr (), ctx', ev1 @ evs))
               | Some d \<Rightarrow>
                   if d \<noteq> [] \<and> \<not> directoryExists w d
                   then (Inl (Error (''Working directory '' @ sq @ d @ sq @ '' does not exist'')),
                         ctx, ev1 @ [CheckDirectory d])
                   else (case run_command stripVT w params ctx sh processedCommand cwd of
                           (Inl f, evs) \<Rightarrow>
                             (Inl (wrap_failure f), ctx,
                              ev1 @ (if d = [] then [] else [CheckDirectory d]) @ evs)
                         | (Inr ctx', evs) \<Rightarrow>
                             (Inr (), ctx',
                              ev1 @ (if d = [] then [] else [CheckDirectory d]) @ evs))))"

text \<open>
  \<open>execute\<close>: its outcome, the context afterwards and the events in order. Logging
  (\<open>debug\<close>, \<open>warn\<close>, \<open>success\<close>) is left out.
\<close>

definition execute ::
  "(string \<Rightarrow> string) \<Rightarrow> world \<Rightarrow> exec_params \<Rightarrow> pipeline_context
     \<Rightarrow> (error + unit) \<times> pipeline_context \<times> event list" where
  "execute stripVT w params ctx =
     (if truthy_bool (quiet params) \<and> truthy_str (outputAssign params)
      then (Inl (Error (''Cannot use both '' @ sq @ ''quiet'' @ sq @ '' and '' @ sq @ ''output-assign''
                   @ sq @ '' options together'')), ctx, [])
      else
       (case PipelineContext_processTemplate ctx (command params) of
          Inl e \<Rightarrow> (Inl e, ctx, [ProcessTemplate (command params)])
        | Inr processedCommand \<Rightarrow>
            (case workingDirectory params of
               None \<Rightarrow>
                 (case checks_and_run stripVT w params ctx processedCommand None of
                    (r, ctx', evs) \<Rightarrow> (r, ctx', ProcessTemplate (command params) # evs))
             | Some wd \<Rightarrow>
                 if wd = []
                 then (case checks_and_run stripVT w params ctx processedCommand None of
                         (r, ctx', evs) \<Rightarrow> (r, ctx', ProcessTemplate (command params) # evs))
                 else (case PipelineContext_processTemplate ctx wd of
                         Inl e \<Rightarrow> (Inl e, ctx, [ProcessTemplate (command params), ProcessTemplate wd])
                       | Inr d \<Rightarrow>
                           (case checks_and_run stripVT w params ctx processedCommand (Some d) of
                              (r, ctx', evs) \<Rightarrow>
                                (r, ctx', ProcessTemplate (command params) # ProcessTemplate wd # evs))))))"


section \<open>Notions used in the statements and proofs\<close>

text \<open>A character as the one-character string the source keeps in its arrays.\<close>

definition single :: "char \<Rightarrow> string" where
  "single ch = [ch]"

text \<open>
  Writing \<open>part\<close> over \<open>buf\<close> from column 0: the text of \<open>part\<close>, then what \<open>buf\<close> had
  beyond the length of \<open>part\<close>.
\<close>

definition overlay :: "string \<Rightarrow> string \<Rightarrow> string" where
  "overlay buf part = part @ drop (length part) buf"

text \<open>
  The value sits at the path in nested objects: every segment but the last names an own
  property that is an object, and the last segment names an own property of the innermost
  object, whose value is \<open>v\<close>. No property name is made of more than one segment.
\<close>

fun stored_at :: "(string \<times> jsval) list \<Rightarrow> string list \<Rightarrow> jsval \<Rightarrow> bool" where
  "stored_at obj [] v = False"
| "stored_at obj [k] v = (map_of obj k = Some v)"
| "stored_at obj (k # k' # ks) v =
     (case map_of obj k of Some (JObj inner) \<Rightarrow> stored_at inner (k' # ks) v | _ \<Rightarrow> False)"

text \<open>
  The store holds \<open>null\<close> at a proper prefix of the path, every segment before it naming
  an object.
\<close>

fun null_on_path :: "(string \<times> jsval) list \<Rightarrow> string list \<Rightarrow> bool" where
  "null_on_path obj [] = False"
| "null_on_path obj [k] = False"
| "null_on_path obj (k # k' # ks) =
     (case map_of obj k of
        Some JNull \<Rightarrow> True
      | Some (JObj inner) \<Rightarrow> null_on_path inner (k' # ks)
      | _ \<Rightarrow> False)"

text \<open>
  What holds of the pool between two steps when every task resolves: \<open>P\<close> is the number
  of workers. A worker awaits an index that has been claimed, whose result is still a hole
  and that no other worker awaits; a result that is there is the value of its task; a
  claimed index with no result is awaited by some worker; no index beyond \<open>taskIndex\<close> has
  a result; a worker returns only once the counter has passed the last index.
\<close>

definition pool_inv :: "(error + 'a) list \<Rightarrow> nat \<Rightarrow> 'a pool_state \<Rightarrow> bool" where
  "pool_inv tasks P st =
     (length (results st) = length tasks \<and> length (workers st) = P
      \<and> claimed st = [0..<min (taskIndex st) (length tasks)]
      \<and> rejected st = None
      \<and> (\<forall>w<P. workers st ! w \<noteq> Threw)
      \<and> (\<forall>w<P. \<forall>i. workers st ! w = Awaiting i \<longrightarrow>
             i < taskIndex st \<and> i < length tasks \<and> results st ! i = None
             \<and> (\<forall>w'<P. workers st ! w' = Awaiting i \<longrightarrow> w' = w))
      \<and> (\<forall>i<length tasks. results st ! i = None \<or> results st ! i = Some (projr (tasks ! i)))
      \<and> (\<forall>i<length tasks. i < taskIndex st \<and> results st ! i = None
             \<longrightarrow> (\<exists>w<P. workers st ! w = Awaiting i))
      \<and> (\<forall>i<length tasks. taskIndex st \<le> i \<longrightarrow> results st ! i = None)
      \<and> (\<forall>w<P. workers st ! w = Returned \<longrightarrow> length tasks \<le> taskIndex st))"

text \<open>The number of results that are there.\<close>

definition completed :: "'a pool_state \<Rightarrow> nat" where
  "completed st = length (filter (\<lambda>r. r \<noteq> None) (results st))"

text \<open>
  The edges of the dependency graph of the data model: \<open>(dep, dependent)\<close> for every
  entry \<open>dep\<close> of the dependency list of the element \<open>dependent\<close>, in the order of
  declaration.
\<close>

definition dep_edges :: "'p element list \<Rightarrow> (string \<times> string) list" where
  "dep_edges es = concat (map (\<lambda>e. map (\<lambda>d. (d, name e)) (deps_of e)) es)"

text \<open>
  A list of names in which every name lists the next one among its dependencies, for the
  dependencies \<open>D\<close>; and such a list that closes: at least two names, the first equal to
  the last.
\<close>

definition dep_chain :: "(string \<Rightarrow> string list) \<Rightarrow> string list \<Rightarrow> bool" where
  "dep_chain D p = (\<forall>i. Suc i < length p \<longrightarrow> p ! Suc i \<in> set (D (p ! i)))"

definition cycle_path :: "(string \<Rightarrow> string list) \<Rightarrow> string list \<Rightarrow> bool" where
  "cycle_path D p = (2 \<le> length p \<and> hd p = last p \<and> dep_chain D p)"

text \<open>
  What holds of the state of \<open>detectCycle\<close> whenever \<open>dfs\<close> is entered or left without a
  cycle: the recursion stack is the set of the names on the path, the path repeats no name,
  its names are visited and each lists the next among its dependencies; and every name that
  is visited and off the stack has all its dependencies visited and off the stack, and lies
  on no cycle.
\<close>

definition finished :: "dfs_state \<Rightarrow> string set" where
  "finished st = visited st - recursionStack st"

definition dfs_ok :: "(string \<Rightarrow> string list) \<Rightarrow> dfs_state \<Rightarrow> bool" where
  "dfs_ok D st =
     (recursionStack st = set (path st) \<and> distinct (path st) \<and> set (path st) \<subseteq> visited st
      \<and> dep_chain D (path st)
      \<and> (\<forall>n \<in> finished st. set (D n) \<subseteq> finished st \<and> (n, n) \<notin> {(a, b). b \<in> set (D a)}\<^sup>+))"

text \<open>\<open>dfs\<close> returned a cycle; \<open>dfs\<close> returned \<open>null\<close> and left path and stack as they were.\<close>

definition dfs_found :: "(string \<Rightarrow> string list) \<Rightarrow> string option \<Rightarrow> bool" where
  "dfs_found D r = (\<exists>p. r = Some (join arrow p) \<and> cycle_path D p)"

definition dfs_back :: "(string \<Rightarrow> string list) \<Rightarrow> dfs_state \<Rightarrow> dfs_state \<Rightarrow> bool" where
  "dfs_back D st st' =
     (dfs_ok D st' \<and> path st' = path st \<and> recursionStack st' = recursionStack st
      \<and> visited st \<subseteq> visited st')"

text \<open>
  What holds of the loop of \<open>topologicalSort\<close> at every turn, for the dependencies \<open>D\<close> and
  the element names \<open>N\<close>: \<open>order\<close> is the list of the names taken from the queue so far.
  No name is twice in \<open>order\<close> and queue together; a name is there if and only if its
  counter is not positive; the counter of a name is at least the number of its
  dependencies that are not yet in \<open>order\<close>; and every name in \<open>order\<close> has all its
  dependencies in \<open>order\<close> and lies on no cycle.
\<close>

definition kahn_inv ::
  "(string \<Rightarrow> string list) \<Rightarrow> string set \<Rightarrow> (string \<times> int) list \<Rightarrow> string list \<Rightarrow> string list
     \<Rightarrow> bool" where
  "kahn_inv D N deg queue order =
     (distinct (order @ queue) \<and> set (order @ queue) \<subseteq> N
      \<and> (\<forall>n \<in> N. (n \<in> set (order @ queue)) = (js_or0 (map_of deg n) \<le> 0))
      \<and> (\<forall>n \<in> N. int (card (set (D n) - set order)) \<le> js_or0 (map_of deg n))
      \<and> (\<forall>n \<in> set order. set (D n) \<subseteq> set order \<and> (n, n) \<notin> {(a, b). b \<in> set (D a)}\<^sup>+))"

text \<open>
  Two more facts of the loop of \<open>topologicalSort\<close>: every name in \<open>order\<close> comes after all
  its dependencies; and, when no dependency list repeats an entry, the counter of a name is
  exactly the number of its dependencies that are not yet in \<open>order\<close>.
\<close>

definition deps_first :: "(string \<Rightarrow> string list) \<Rightarrow> string list \<Rightarrow> bool" where
  "deps_first D order = (\<forall>i < length order. set (D (order ! i)) \<subseteq> set (take i order))"

definition kahn_exact ::
  "(string \<Rightarrow> string list) \<Rightarrow> string set \<Rightarrow> (string \<times> int) list \<Rightarrow> string list \<Rightarrow> bool" where
  "kahn_exact D N deg order =
     (\<forall>n \<in> N. js_or0 (map_of deg n) = int (card (set (D n) - set order)))"

section \<open>Properties of the terminal text utilities\<close>

lemma handleBackspaces_snoc: "handleBackspaces (xs @ [c]) = bs_step (handleBackspaces xs) c"
  by (simp add: handleBackspaces_def)

lemma split_on_nonempty: "split_on c xs \<noteq> []"
  by (induction xs) (auto split: list.splits)

lemma split_on_no_sep: "c \<notin> set xs \<Longrightarrow> split_on c xs = [xs]"
  by (induction xs) auto

lemma split_on_parts_no_sep: "p \<in> set (split_on c xs) \<Longrightarrow> c \<notin> set p"
  by (induction xs arbitrary: p) (auto split: if_splits list.splits)

lemma split_on_parts_subset: "p \<in> set (split_on c xs) \<Longrightarrow> set p \<subseteq> set xs"
proof (induction xs arbitrary: p)
  case Nil
  then show ?case by simp
next
  case (Cons x xs)
  show ?case
  proof (cases "x = c")
    case True
    then show ?thesis using Cons by auto
  next
    case False
    obtain q qs where q: "split_on c xs = q # qs"
      using split_on_nonempty[of c xs] by (cases "split_on c xs") auto
    have "set q \<subseteq> set xs" using Cons.IH[of q] q by simp
    moreover have "p = x # q \<or> p \<in> set qs" using Cons.prems False q by simp
    ultimately show ?thesis using Cons.IH[of p] q by auto
  qed
qed

lemma join_split_on: "join [c] (split_on c xs) = xs"
proof (induction xs)
  case Nil
  then show ?case by simp
next
  case (Cons x xs)
  then show ?case
    by (cases "split_on c xs"; cases "tl (split_on c xs)") (auto simp: split_on_nonempty)
qed

lemma split_on_append_sep:
  "c \<notin> set p \<Longrightarrow> split_on c (p @ c # rest) = p # split_on c rest"
  by (induction p) auto

lemma split_on_join:
  "ls \<noteq> [] \<Longrightarrow> \<forall>l \<in> set ls. c \<notin> set l \<Longrightarrow> split_on c (join [c] ls) = ls"
proof (induction ls)
  case Nil
  then show ?case by simp
next
  case (Cons x xs)
  show ?case
  proof (cases xs)
    case Nil
    then show ?thesis using Cons.prems by (simp add: split_on_no_sep)
  next
    case (Cons y ys)
    then show ?thesis using Cons.IH Cons.prems by (simp add: split_on_append_sep)
  qed
qed

lemma concat_single: "concat (map single s) = s"
  by (induction s) (auto simp: single_def)

lemma js_set_single:
  assumes "n < length part"
  shows "js_set (map single (take n part @ drop n s)) n [part ! n]
         = map single (take (Suc n) part @ drop (Suc n) s)"
proof (cases "n < length s")
  case True
  have len: "length (take n part) = n" using assms by simp
  have "(map single (take n part @ drop n s))[n := [part ! n]]
        = map single ((take n part @ drop n s)[n := part ! n])"
    by (simp add: map_update single_def)
  also have "(take n part @ drop n s)[n := part ! n] = take n part @ (drop n s)[0 := part ! n]"
    using len by (simp add: list_update_append)
  also have "(drop n s)[0 := part ! n] = part ! n # drop (Suc n) s"
    using True by (metis Cons_nth_drop_Suc list_update_code(2))
  also have "take n part @ part ! n # drop (Suc n) s = take (Suc n) part @ drop (Suc n) s"
    using assms by (simp add: take_Suc_conv_app_nth)
  finally show ?thesis using True assms by (simp add: js_set_def)
next
  case False
  then show ?thesis using assms
    by (simp add: js_set_def take_Suc_conv_app_nth single_def)
qed

lemma write_part_prefix:
  "n \<le> length part \<Longrightarrow>
   foldl (\<lambda>b i. js_set b i [part ! i]) (map single s) [0..<n]
     = map single (take n part @ drop n s)"
proof (induction n)
  case 0
  then show ?case by simp
next
  case (Suc n)
  then show ?case by (simp add: js_set_single del: map_append)
qed

lemma write_part_single:
  "write_part (map single s) part = map single (overlay s part)"
  using write_part_prefix[of "length part" part s] by (simp add: write_part_def overlay_def)

lemma foldl_write_part:
  "foldl write_part (map single s) parts = map single (foldl overlay s parts)"
  by (induction parts arbitrary: s) (simp_all add: write_part_single)

lemma overstrikeLine_overlay: "overstrikeLine line = foldl overlay [] (split_on CR line)"
proof (cases "CR \<in> set line")
  case True
  then show ?thesis
    using foldl_write_part[of "[]" "split_on CR line"]
    by (simp add: overstrikeLine_def concat_single)
next
  case False
  then show ?thesis by (simp add: overstrikeLine_def split_on_no_sep overlay_def)
qed

lemma set_foldl_overlay: "set (foldl overlay buf parts) \<subseteq> set buf \<union> \<Union> (set ` set parts)"
proof (induction parts arbitrary: buf)
  case Nil
  then show ?case by simp
next
  case (Cons p ps)
  have "set (overlay buf p) \<subseteq> set buf \<union> set p"
    using set_drop_subset[of "length p" buf] by (auto simp: overlay_def)
  then show ?case using Cons[of "overlay buf p"] by auto
qed

lemma set_overstrikeLine: "set (overstrikeLine line) \<subseteq> set line"
  using set_foldl_overlay[of "[]" "split_on CR line"] split_on_parts_subset[of _ CR line]
  by (auto simp: overstrikeLine_overlay)

lemma overlay_columns:
  "length (foldl overlay buf parts) = foldl max (length buf) (map length parts) \<and>
   (\<forall>i < length (foldl overlay buf parts).
      (\<exists>k < length parts. i < length (parts ! k) \<and> foldl overlay buf parts ! i = parts ! k ! i \<and>
          (\<forall>j. k < j \<and> j < length parts \<longrightarrow> length (parts ! j) \<le> i))
      \<or> ((\<forall>j < length parts. length (parts ! j) \<le> i) \<and> i < length buf \<and>
          foldl overlay buf parts ! i = buf ! i))"
proof (induction parts rule: rev_induct)
  case Nil
  then show ?case by simp
next
  case (snoc p ps)
  let ?r = "foldl overlay buf ps"
  have len: "length (foldl overlay buf (ps @ [p])) = max (length ?r) (length p)"
    by (auto simp: overlay_def)
  have l1: "length (foldl overlay buf (ps @ [p])) = foldl max (length buf) (map length (ps @ [p]))"
    using snoc len by simp
  have l2: "(\<exists>k < length (ps @ [p]). i < length ((ps @ [p]) ! k) \<and>
              foldl overlay buf (ps @ [p]) ! i = (ps @ [p]) ! k ! i \<and>
              (\<forall>j. k < j \<and> j < length (ps @ [p]) \<longrightarrow> length ((ps @ [p]) ! j) \<le> i))
          \<or> ((\<forall>j < length (ps @ [p]). length ((ps @ [p]) ! j) \<le> i) \<and> i < length buf \<and>
              foldl overlay buf (ps @ [p]) ! i = buf ! i)"
    if i: "i < length (foldl overlay buf (ps @ [p]))" for i
  proof (cases "i < length p")
    case True
    have "foldl overlay buf (ps @ [p]) ! i = p ! i"
      using True by (simp add: overlay_def nth_append)
    then have "length ps < length (ps @ [p]) \<and> i < length ((ps @ [p]) ! length ps) \<and>
               foldl overlay buf (ps @ [p]) ! i = (ps @ [p]) ! length ps ! i \<and>
               (\<forall>j. length ps < j \<and> j < length (ps @ [p]) \<longrightarrow> length ((ps @ [p]) ! j) \<le> i)"
      using True by simp
    then show ?thesis by blast
  next
    case False
    then have ir: "i < length ?r" using i len by simp
    have eq: "foldl overlay buf (ps @ [p]) ! i = ?r ! i"
      using False ir by (simp add: overlay_def nth_append)
    from snoc ir consider
      (a) k where "k < length ps" "i < length (ps ! k)" "?r ! i = ps ! k ! i"
          "\<forall>j. k < j \<and> j < length ps \<longrightarrow> length (ps ! j) \<le> i"
      | (b) "\<forall>j < length ps. length (ps ! j) \<le> i" "i < length buf" "?r ! i = buf ! i"
      by blast
    then show ?thesis
    proof cases
      case a
      have "\<forall>j. k < j \<and> j < length (ps @ [p]) \<longrightarrow> length ((ps @ [p]) ! j) \<le> i"
        using a(4) False by (auto simp: nth_append less_Suc_eq)
      then have "k < length (ps @ [p]) \<and> i < length ((ps @ [p]) ! k) \<and>
            foldl overlay buf (ps @ [p]) ! i = (ps @ [p]) ! k ! i \<and>
            (\<forall>j. k < j \<and> j < length (ps @ [p]) \<longrightarrow> length ((ps @ [p]) ! j) \<le> i)"
        using a eq by (simp add: nth_append)
      then show ?thesis by blast
    next
      case b
      have "\<forall>j < length (ps @ [p]). length ((ps @ [p]) ! j) \<le> i"
        using b(1) False by (auto simp: nth_append less_Suc_eq)
      then show ?thesis using b eq by simp
    qed
  qed
  show ?case using l1 l2 by blast
qed

lemma normalizeOverstrikes_lines:
  "split_on NL (normalizeOverstrikes input)
     = map overstrikeLine (split_on NL (handleBackspaces input))"
proof -
  let ?ls = "map overstrikeLine (split_on NL (handleBackspaces input))"
  have ne: "?ls \<noteq> []" by (simp add: split_on_nonempty)
  have nonl: "\<forall>l \<in> set ?ls. NL \<notin> set l"
    using split_on_parts_no_sep[of _ NL "handleBackspaces input"] set_overstrikeLine by auto
  have "split_on NL (join [NL] ?ls) = ?ls" using split_on_join[OF ne nonl] .
  moreover have "normalizeOverstrikes input = join [NL] ?ls"
    by (cases "input = []")
       (simp_all add: normalizeOverstrikes_def handleBackspaces_def overstrikeLine_def)
  ultimately show ?thesis by simp
qed

text \<open>
  Claim C9. \<open>normalizeOverstrikes\<close> simulates a terminal line by line. A backspace deletes
  the character before it (nothing, at the very start); any other character is appended.
  The lines of the result are the lines of the backspace-free text, each normalised on its
  own by \<open>overstrikeLine\<close>. In a line, the parts separated by carriage returns are written
  over each other from column 0: the result is as long as the longest part, and its
  character at column \<open>i\<close> is that of the last part that reaches column \<open>i\<close>, so a later
  part overwrites the earlier ones and what an earlier part has beyond it stays.
\<close>

theorem normalizeOverstrikes_simulates_terminal:
  "handleBackspaces (xs @ [BS]) = butlast (handleBackspaces xs)
   \<and> (c \<noteq> BS \<longrightarrow> handleBackspaces (xs @ [c]) = handleBackspaces xs @ [c])
   \<and> split_on NL (normalizeOverstrikes input)
       = map overstrikeLine (split_on NL (handleBackspaces input))
   \<and> length (overstrikeLine line) = foldl max 0 (map length (split_on CR line))
   \<and> (\<forall>i < length (overstrikeLine line). \<exists>k < length (split_on CR line).
         i < length (split_on CR line ! k)
         \<and> overstrikeLine line ! i = split_on CR line ! k ! i
         \<and> (\<forall>j. k < j \<and> j < length (split_on CR line) \<longrightarrow> length (split_on CR line ! j) \<le> i))"
proof -
  have a: "handleBackspaces (xs @ [BS]) = butlast (handleBackspaces xs)"
    by (simp add: handleBackspaces_snoc bs_step_def)
  have b: "c \<noteq> BS \<longrightarrow> handleBackspaces (xs @ [c]) = handleBackspaces xs @ [c]"
    by (simp add: handleBackspaces_snoc bs_step_def)
  have d: "length (overstrikeLine line) = foldl max 0 (map length (split_on CR line))"
    using overlay_columns[of "[]" "split_on CR line"] by (simp add: overstrikeLine_overlay)
  have e: "\<forall>i < length (overstrikeLine line). \<exists>k < length (split_on CR line).
         i < length (split_on CR line ! k)
         \<and> overstrikeLine line ! i = split_on CR line ! k ! i
         \<and> (\<forall>j. k < j \<and> j < length (split_on CR line) \<longrightarrow> length (split_on CR line ! j) \<le> i)"
    using overlay_columns[of "[]" "split_on CR line"] by (simp add: overstrikeLine_overlay)
  show ?thesis using a b normalizeOverstrikes_lines d e by blast
qed

theorem normalizeOverstrikes_simulates_terminal_witness:
  "handleBackspaces (''ab'' @ [BS]) = ''a''
   \<and> handleBackspaces (''ab'' @ ''c'') = ''abc''
   \<and> split_on NL (normalizeOverstrikes (''ab'' @ [BS] @ ''c'' @ [CR] @ ''X'' @ [NL] @ ''hello'' @ [CR] @ ''ab'' @ [CR] @ ''Z''))
       = [''Xc'', ''Zbllo'']
   \<and> length (overstrikeLine (''hello'' @ [CR] @ ''ab'' @ [CR] @ ''Z'')) = 5
   \<and> (\<exists>k < 3. 1 < length (split_on CR (''hello'' @ [CR] @ ''ab'' @ [CR] @ ''Z'') ! k)
         \<and> overstrikeLine (''hello'' @ [CR] @ ''ab'' @ [CR] @ ''Z'') ! 1
             = split_on CR (''hello'' @ [CR] @ ''ab'' @ [CR] @ ''Z'') ! k ! 1)"
proof -
  let ?inp = "''ab'' @ [BS] @ ''c'' @ [CR] @ ''X'' @ [NL] @ ''hello'' @ [CR] @ ''ab'' @ [CR] @ ''Z''"
  let ?line = "''hello'' @ [CR] @ ''ab'' @ [CR] @ ''Z''"
  note T = normalizeOverstrikes_simulates_terminal[of "''ab''" "CHR ''c''" ?inp ?line]
  have v1: "butlast (handleBackspaces ''ab'') = ''a''" by code_simp
  have v2: "handleBackspaces ''ab'' @ ''c'' = ''abc''" by code_simp
  have v2': "CHR ''c'' \<noteq> BS" by code_simp
  have v3: "map overstrikeLine (split_on NL (handleBackspaces ?inp)) = [''Xc'', ''Zbllo'']"
    by code_simp
  have v4: "foldl max 0 (map length (split_on CR ?line)) = 5" by code_simp
  have v5: "length (split_on CR ?line) = 3" by code_simp
  have v6: "(1::nat) < length (overstrikeLine ?line)" by code_simp
  from T v6 have "\<exists>k < length (split_on CR ?line).
         1 < length (split_on CR ?line ! k)
         \<and> overstrikeLine ?line ! 1 = split_on CR ?line ! k ! 1" by blast
  then have e: "\<exists>k < 3. 1 < length (split_on CR ?line ! k)
         \<and> overstrikeLine ?line ! 1 = split_on CR ?line ! k ! 1" using v5 by simp
  show ?thesis using T v1 v2 v2' v3 v4 e by simp
qed


section \<open>Properties of the context engine\<close>

lemma path_char_not_space: "is_path_char c \<Longrightarrow> \<not> is_space c"
  by (auto simp: is_path_char_def is_word_def is_alnum_def is_lower_def is_upper_def
      is_digit_def is_space_def)

lemma brace_not_space: "\<not> is_space CHR ''}''"
  by (simp add: is_space_def)

lemma brace_not_path_char: "\<not> is_path_char CHR ''}''"
  by (simp add: is_path_char_def is_word_def is_alnum_def is_lower_def is_upper_def is_digit_def)

lemma space_not_path_char: "is_space c \<Longrightarrow> \<not> is_path_char c"
  using path_char_not_space by blast

lemma match_body_shape:
  assumes ws1: "list_all is_space ws1" and p: "p \<noteq> []" "list_all is_path_char p"
    and ws2: "list_all is_space ws2"
  shows "match_body (ws1 @ p @ ws2 @ ''}}'' @ rest) = Some (p, rest)"
proof -
  obtain c p' where pc: "p = c # p'" using p(1) by (cases p) auto
  have c: "\<not> is_space c" using p(2) pc path_char_not_space by simp
  have d1: "dropWhile is_space (ws1 @ p @ ws2 @ ''}}'' @ rest) = p @ ws2 @ ''}}'' @ rest"
    using ws1 c pc by (simp add: dropWhile_append3 list_all_iff dropWhile_append2)
  have nxt: "ws2 @ ''}}'' @ rest \<noteq> [] \<and> \<not> is_path_char (hd (ws2 @ ''}}'' @ rest))"
    using ws2 space_not_path_char brace_not_path_char by (cases ws2) auto
  have t: "takeWhile is_path_char (p @ ws2 @ ''}}'' @ rest) = p"
    using p(2) nxt by (cases "ws2 @ ''}}'' @ rest") (auto simp: takeWhile_append2 list_all_iff)
  have d2: "dropWhile is_path_char (p @ ws2 @ ''}}'' @ rest) = ws2 @ ''}}'' @ rest"
    using p(2) nxt by (cases "ws2 @ ''}}'' @ rest") (auto simp: dropWhile_append2 list_all_iff)
  have d3: "dropWhile is_space (ws2 @ ''}}'' @ rest) = ''}}'' @ rest"
    using ws2 brace_not_space by (simp add: dropWhile_append2 list_all_iff)
  show ?thesis using d1 t d2 d3 p(1) by (simp add: match_body_def Let_def)
qed

text \<open>
  Claim C5. \<open>processTemplate\<close> returns an Assignment Expression unchanged, whatever the
  Facts and the Variables hold: for every string that \<open>isAssignmentExpression\<close> accepts,
  and these are in particular the strings \<open>$>{{\<close>, white space, a non-empty path of word
  characters and dots, white space, \<open>}}\<close>.
\<close>

theorem assignment_expression_unchanged:
  "(isAssignmentExpression t \<longrightarrow> PipelineContext_processTemplate ctx t = Inr t)
   \<and> (list_all is_space ws1 \<and> p \<noteq> [] \<and> list_all is_path_char p \<and> list_all is_space ws2
        \<longrightarrow> isAssignmentExpression (''$>{{'' @ ws1 @ p @ ws2 @ ''}}'')
            \<and> processTemplate (''$>{{'' @ ws1 @ p @ ws2 @ ''}}'') readonlyCtx runtimeCtx
                = Inr (''$>{{'' @ ws1 @ p @ ws2 @ ''}}''))"
proof -
  have a: "isAssignmentExpression t \<longrightarrow> PipelineContext_processTemplate ctx t = Inr t"
    by (simp add: PipelineContext_processTemplate_def processTemplate_def)
  have b: "isAssignmentExpression (''$>{{'' @ ws1 @ p @ ws2 @ ''}}'')"
    if "list_all is_space ws1" "p \<noteq> []" "list_all is_path_char p" "list_all is_space ws2"
    using match_body_shape[OF that, of "[]"]
    by (simp add: isAssignmentExpression_def parseAssignmentExpression_def)
  show ?thesis using a b by (auto simp: processTemplate_def)
qed

theorem assignment_expression_unchanged_witness:
  "isAssignmentExpression ''$>{{ ctx.out }}''
   \<and> PipelineContext_processTemplate
        \<lparr>readonlyContext = [(''name'', JStr ''el'')],
         runtimeContext = \<lparr>data = [(''ctx'', JObj [(''out'', JStr ''v'')])],
                           assignedKeys = [''ctx.out''], readonlyKeys = [''name'']\<rparr>\<rparr>
        ''$>{{ ctx.out }}'' = Inr ''$>{{ ctx.out }}''
   \<and> processTemplate ''$>{{ ctx.out }}'' [(''ctx'', JStr ''fact'')] [(''ctx'', JStr ''variable'')]
        = Inr ''$>{{ ctx.out }}''"
proof -
  have s: "list_all is_space '' ''" by code_simp
  have pc: "list_all is_path_char ''ctx.out''" by code_simp
  have ne: "''ctx.out'' \<noteq> []" by simp
  have i: "isAssignmentExpression ''$>{{ ctx.out }}''" by code_simp
  show ?thesis
    using i s pc ne
      assignment_expression_unchanged[of "''$>{{ ctx.out }}''"
        "\<lparr>readonlyContext = [(''name'', JStr ''el'')],
         runtimeContext = \<lparr>data = [(''ctx'', JObj [(''out'', JStr ''v'')])],
                           assignedKeys = [''ctx.out''], readonlyKeys = [''name'']\<rparr>\<rparr>"
        "'' ''" "''ctx.out''" "'' ''" "[(''ctx'', JStr ''fact'')]" "[(''ctx'', JStr ''variable'')]"]
    by simp
qed


section \<open>Properties of the pseudo-terminal automation\<close>

lemma pty_run_snoc:
  "pty_run stripVT q prompts (chunks @ [c]) = onData stripVT q prompts (pty_run stripVT q prompts chunks) c"
  by (simp add: pty_run_def)

lemma onData_answers:
  assumes "nextPromptIndex st < length prompts"
    and "js_includes (visibleBuffer st @ stripVT c) (match (prompts ! nextPromptIndex st))"
  shows "nextPromptIndex (onData stripVT q prompts st c) = Suc (nextPromptIndex st)"
    and "written (onData stripVT q prompts st c)
           = written st @ [toSend (response (prompts ! nextPromptIndex st))]"
  using assms by (simp_all add: onData_def Let_def)

lemma onData_waits:
  assumes "\<not> (nextPromptIndex st < length prompts
      \<and> js_includes (visibleBuffer st @ stripVT c) (match (prompts ! nextPromptIndex st)))"
  shows "nextPromptIndex (onData stripVT q prompts st c) = nextPromptIndex st"
    and "written (onData stripVT q prompts st c) = written st"
  using assms by (auto simp: onData_def Let_def)

lemma onData_buffers:
  "buffer (onData stripVT q prompts st c) = buffer st @ c"
  "visibleBuffer (onData stripVT q prompts st c) = visibleBuffer st @ stripVT c"
  by (simp_all add: onData_def Let_def)

lemma pty_run_written:
  "nextPromptIndex (pty_run stripVT q prompts chunks) \<le> length prompts \<and>
   written (pty_run stripVT q prompts chunks)
     = map (\<lambda>p. toSend (response p)) (take (nextPromptIndex (pty_run stripVT q prompts chunks)) prompts)"
proof (induction chunks rule: rev_induct)
  case Nil
  then show ?case by (simp add: pty_run_def pty_init_def)
next
  case (snoc c chunks)
  let ?st = "pty_run stripVT q prompts chunks"
  show ?case
  proof (cases "nextPromptIndex ?st < length prompts
      \<and> js_includes (visibleBuffer ?st @ stripVT c) (match (prompts ! nextPromptIndex ?st))")
    case True
    then show ?thesis
      using snoc onData_answers[of ?st prompts stripVT c q]
      by (simp add: pty_run_snoc take_Suc_conv_app_nth)
  next
    case False
    then show ?thesis
      using snoc onData_waits[of ?st prompts stripVT c q]
      by (simp add: pty_run_snoc)
  qed
qed

lemma pty_run_monotone:
  "nextPromptIndex (pty_run stripVT q prompts chunks)
     \<le> nextPromptIndex (pty_run stripVT q prompts (chunks @ later))"
proof (induction later rule: rev_induct)
  case Nil
  then show ?case by simp
next
  case (snoc c later)
  have "nextPromptIndex (pty_run stripVT q prompts (chunks @ later))
          \<le> nextPromptIndex (onData stripVT q prompts (pty_run stripVT q prompts (chunks @ later)) c)"
    by (simp add: onData_def Let_def)
  then show ?case using snoc pty_run_snoc[of stripVT q prompts "chunks @ later" c] by simp
qed

text \<open>
  Claim C7. While a command runs on the pseudo-terminal, for every list of prompts and
  every sequence of chunks: what has been written to the process is exactly the responses
  of the first \<open>nextPromptIndex\<close> prompts, in list order and each once, a response being
  sent as it is when it ends with a newline or a carriage return and with a newline
  appended otherwise. A chunk is only ever tested against the one prompt at
  \<open>nextPromptIndex\<close>: when its \<open>match\<close> text is in the visible buffer its response is written
  and the index moves on by one; otherwise nothing is written and the index stays. The index
  never goes back, so a prompt that has been answered is not answered again, whatever
  arrives later.
\<close>

theorem prompts_answered_in_order_once:
  "(let st = pty_run stripVT q prompts chunks;
        st' = pty_run stripVT q prompts (chunks @ [c])
    in nextPromptIndex st \<le> length prompts
       \<and> written st = map (\<lambda>p. toSend (response p)) (take (nextPromptIndex st) prompts)
       \<and> (nextPromptIndex st < length prompts
            \<and> js_includes (visibleBuffer st @ stripVT c) (match (prompts ! nextPromptIndex st))
          \<longrightarrow> nextPromptIndex st' = Suc (nextPromptIndex st)
              \<and> written st' = written st @ [toSend (response (prompts ! nextPromptIndex st))])
       \<and> (\<not> (nextPromptIndex st < length prompts
               \<and> js_includes (visibleBuffer st @ stripVT c) (match (prompts ! nextPromptIndex st)))
          \<longrightarrow> nextPromptIndex st' = nextPromptIndex st \<and> written st' = written st)
       \<and> nextPromptIndex st \<le> nextPromptIndex (pty_run stripVT q prompts (chunks @ later)))
   \<and> toSend r = (if endsWith r [NL] \<or> endsWith r [CR] then r else r @ [NL])"
  using pty_run_written[of stripVT q prompts chunks]
    onData_answers[of "pty_run stripVT q prompts chunks" prompts stripVT c q]
    onData_waits[of "pty_run stripVT q prompts chunks" prompts stripVT c q]
    pty_run_monotone[of stripVT q prompts chunks later]
  by (simp add: Let_def pty_run_snoc toSend_def)

theorem prompts_answered_in_order_once_witness:
  "written (pty_run id False [\<lparr>match = ''Continue?'', response = ''y''\<rparr>] [''Continue? ''])
     = [''y'' @ [NL]]
   \<and> nextPromptIndex (pty_run id False [\<lparr>match = ''Continue?'', response = ''y''\<rparr>] [''Continue? '']) = 1
   \<and> written (pty_run id False [\<lparr>match = ''Continue?'', response = ''y''\<rparr>]
        ([''Continue? ''] @ [''Continue? again''])) = [''y'' @ [NL]]
   \<and> runWithPty id False [\<lparr>match = ''Continue?'', response = ''y''\<rparr>] True
        [''Continue? '', ''done''] (Some 0) = Inr ''Continue? done''"
proof -
  let ?ps = "[\<lparr>match = ''Continue?'', response = ''y''\<rparr>]"
  have e0: "pty_run id False ?ps [] = pty_init" by (simp add: pty_run_def)
  have h1: "nextPromptIndex pty_init < length ?ps
      \<and> js_includes (visibleBuffer pty_init @ id ''Continue? '') (match (?ps ! nextPromptIndex pty_init))"
    by code_simp
  have t1: "toSend (response (?ps ! nextPromptIndex pty_init)) = ''y'' @ [NL]" by code_simp
  have w0: "written pty_init = []" by (simp add: pty_init_def)
  have n0: "nextPromptIndex pty_init = 0" by (simp add: pty_init_def)
  note A = prompts_answered_in_order_once[of id False ?ps "[]" "''Continue? ''" "[]" "''y''"]
  have a1: "nextPromptIndex (pty_run id False ?ps [''Continue? '']) = 1
      \<and> written (pty_run id False ?ps [''Continue? '']) = [''y'' @ [NL]]"
    using A h1 t1 w0 n0 e0 by (simp add: Let_def)
  let ?st = "pty_run id False ?ps [''Continue? '']"
  have h2: "\<not> (nextPromptIndex ?st < length ?ps
      \<and> js_includes (visibleBuffer ?st @ id ''Continue? again'') (match (?ps ! nextPromptIndex ?st)))"
    using a1 by simp
  note B = prompts_answered_in_order_once[of id False ?ps "[''Continue? '']" "''Continue? again''" "[]" "''y''"]
  have a2: "written (pty_run id False ?ps ([''Continue? ''] @ [''Continue? again''])) = [''y'' @ [NL]]"
    using B h2 a1 by (simp add: Let_def)
  have a3: "runWithPty id False ?ps True [''Continue? '', ''done''] (Some 0) = Inr ''Continue? done''"
    by code_simp
  show ?thesis using a1 a2 a3 by simp
qed


section \<open>Properties of the tool \<open>execute-bash-command\<close>\<close>

text \<open>
  Claim C10, as amended. When \<open>quiet\<close> is true and \<open>outputAssign\<close> is a non-empty string,
  \<open>execute\<close> throws its error at once: the context is the one it was given and nothing
  has happened, no template processed, no check made, no command run.
\<close>

theorem quiet_and_outputAssign_rejected:
  "quiet params = Some True \<and> outputAssign params = Some oa \<and> oa \<noteq> []
   \<longrightarrow> execute stripVT w params ctx
       = (Inl (Error (''Cannot use both '' @ sq @ ''quiet'' @ sq @ '' and '' @ sq @ ''output-assign''
                @ sq @ '' options together'')), ctx, [])"
  by (simp add: execute_def truthy_bool_def truthy_str_def)

theorem quiet_and_outputAssign_rejected_witness:
  "execute id
     \<lparr>shellAvailable = (\<lambda>s. True), directoryExists = (\<lambda>d. True),
      ptyOutput = (\<lambda>c d. ([], Some 0)),
      shellOutput = (\<lambda>c d. \<lparr>exitCode = 0, stdout = ''out'', stderr = []\<rparr>)\<rparr>
     \<lparr>command = ''echo out'', shell = None, workingDirectory = None, quiet = Some True,
      outputAssign = Some ''$>{{ ctx.out }}'', exitOnNonZeroCode = None, interactivePrompts = None\<rparr>
     (new_PipelineContext [(''name'', JStr ''el'')])
   = (Inl (Error (''Cannot use both '' @ sq @ ''quiet'' @ sq @ '' and '' @ sq @ ''output-assign''
                @ sq @ '' options together'')), new_PipelineContext [(''name'', JStr ''el'')], [])"
  using quiet_and_outputAssign_rejected[of
      "\<lparr>command = ''echo out'', shell = None, workingDirectory = None, quiet = Some True,
      outputAssign = Some ''$>{{ ctx.out }}'', exitOnNonZeroCode = None, interactivePrompts = None\<rparr>"
      "''$>{{ ctx.out }}''" id
      "\<lparr>shellAvailable = (\<lambda>s. True), directoryExists = (\<lambda>d. True),
      ptyOutput = (\<lambda>c d. ([], Some 0)),
      shellOutput = (\<lambda>c d. \<lparr>exitCode = 0, stdout = ''out'', stderr = []\<rparr>)\<rparr>"
      "new_PipelineContext [(''name'', JStr ''el'')]"]
  by simp

text \<open>
  Claim C10 as stated does not hold when \<open>outputAssign\<close> is set to the empty string, which
  is falsy: with \<open>quiet\<close> true and \<open>outputAssign\<close> empty the guard does not fire:
  the command is processed and run, and \<open>execute\<close> returns normally.
\<close>

theorem quiet_and_empty_outputAssign_runs:
  "execute id
     \<lparr>shellAvailable = (\<lambda>s. True), directoryExists = (\<lambda>d. True),
      ptyOutput = (\<lambda>c d. ([], Some 0)),
      shellOutput = (\<lambda>c d. \<lparr>exitCode = 0, stdout = ''out'', stderr = []\<rparr>)\<rparr>
     \<lparr>command = ''echo out'', shell = None, workingDirectory = None, quiet = Some True,
      outputAssign = Some [], exitOnNonZeroCode = None, interactivePrompts = None\<rparr>
     (new_PipelineContext [(''name'', JStr ''el'')])
   = (Inr (), new_PipelineContext [(''name'', JStr ''el'')],
      [ProcessTemplate ''echo out'', RunShell [''bash'', ''-c'', ''echo out'']])"
  by code_simp


section \<open>Properties of the context: writing\<close>

lemma stored_at_dlv_path: "stored_at obj ks v \<Longrightarrow> dlv_path (JObj obj) ks = v"
proof (induction obj ks v rule: stored_at.induct)
  case (1 obj v)
  then show ?case by simp
next
  case (2 obj k v)
  then show ?case by (simp add: js_prop_def)
next
  case (3 obj k k' ks v)
  from "3.prems" obtain x where x: "map_of obj k = Some x"
    by (cases "map_of obj k") simp_all
  from "3.prems" x obtain inner where inner: "x = JObj inner"
    by (cases x) simp_all
  have "stored_at inner (k' # ks) v" using "3.prems" x inner by simp
  then have "dlv_path (JObj inner) (k' # ks) = v" using "3.IH" x inner by simp
  moreover have "js_prop obj k = JObj inner" using x inner by (simp add: js_prop_def)
  ultimately show ?case by simp
qed

lemma dset_path_step:
  assumes "\<not> reserved_key k" and "\<not> reserved_key k'"
  shows "dset_path t (k # k' # ks) v =
     (if map_of t k = Some JNull then None
      else map_option (\<lambda>x'. AList.update k (JObj x') t)
             (dset_path (case map_of t k of Some (JObj x) \<Rightarrow> x | _ \<Rightarrow> []) (k' # ks) v))"
proof (cases "map_of t k")
  case None
  then show ?thesis using assms by simp
next
  case (Some x)
  then show ?thesis using assms by (cases x) simp_all
qed

lemma null_on_path_step:
  "null_on_path t (k # k' # ks) =
     (map_of t k = Some JNull
      \<or> null_on_path (case map_of t k of Some (JObj x) \<Rightarrow> x | _ \<Rightarrow> []) (k' # ks)
         \<and> (\<exists>x. map_of t k = Some (JObj x)))"
proof (cases "map_of t k")
  case None
  then show ?thesis by simp
next
  case (Some x)
  then show ?thesis by (cases x) simp_all
qed

lemma null_on_path_empty: "\<not> null_on_path [] ks"
proof (cases ks)
  case Nil
  then show ?thesis by simp
next
  case (Cons k rest)
  then show ?thesis by (cases rest) simp_all
qed

lemma stored_at_step:
  "stored_at (AList.update k (JObj x') t) (k # k' # ks) v = stored_at x' (k' # ks) v"
  by (simp add: update_conv')

lemma dset_path_throws:
  "\<not> list_ex reserved_key ks \<Longrightarrow> dset_path t ks v = None \<longleftrightarrow> null_on_path t ks"
proof (induction ks arbitrary: t)
  case Nil
  then show ?case by simp
next
  case (Cons k rest)
  show ?case
  proof (cases rest)
    case Nil
    then show ?thesis using Cons.prems by simp
  next
    case (Cons k' ks)
    have nk: "\<not> reserved_key k" "\<not> reserved_key k'" "\<not> list_ex reserved_key rest"
      using Cons.prems Cons by simp_all
    let ?x = "case map_of t k of Some (JObj x) \<Rightarrow> x | _ \<Rightarrow> []"
    have ih: "dset_path ?x (k' # ks) v = None \<longleftrightarrow> null_on_path ?x (k' # ks)"
      using Cons.IH[OF nk(3), of ?x] Cons by simp
    have e: "\<not> (\<exists>x. map_of t k = Some (JObj x)) \<Longrightarrow> ?x = []"
      by (auto split: option.splits jsval.splits)
    show ?thesis
      unfolding Cons dset_path_step[OF nk(1,2)] null_on_path_step
      using ih e null_on_path_empty[of "k' # ks"] by (cases "\<exists>x. map_of t k = Some (JObj x)") auto
  qed
qed

lemma dset_path_stores:
  "\<not> list_ex reserved_key ks \<Longrightarrow> dset_path t ks v = Some t' \<Longrightarrow> ks \<noteq> [] \<Longrightarrow> stored_at t' ks v"
proof (induction ks arbitrary: t t')
  case Nil
  then show ?case by simp
next
  case (Cons k rest)
  show ?case
  proof (cases rest)
    case Nil
    then show ?thesis using Cons.prems by (auto simp: update_conv')
  next
    case (Cons k' ks)
    have nk: "\<not> reserved_key k" "\<not> reserved_key k'" "\<not> list_ex reserved_key rest"
      using Cons.prems(1) Cons by simp_all
    let ?x = "case map_of t k of Some (JObj x) \<Rightarrow> x | _ \<Rightarrow> []"
    from Cons.prems(2) obtain x' where
      x': "dset_path ?x (k' # ks) v = Some x'" and t': "t' = AList.update k (JObj x') t"
      unfolding Cons dset_path_step[OF nk(1,2)] by (auto split: if_splits)
    have "stored_at x' (k' # ks) v"
      using Cons.IH[OF nk(3), of ?x x'] x' Cons by simp
    then show ?thesis unfolding Cons t' stored_at_step .
  qed
qed

lemma dset_path_keys:
  "dset_path t ks v = Some t' \<Longrightarrow> ks \<noteq> [] \<Longrightarrow> \<not> reserved_key (hd ks) \<Longrightarrow>
     fst ` set t' = insert (hd ks) (fst ` set t)"
proof (induction t ks v rule: dset_path.induct)
  case (1 t v)
  then show ?case by simp
next
  case (2 t k v)
  then have "t' = AList.update k v t" by simp
  then show ?case by (simp add: dom_update)
next
  case (3 t k k' ks v)
  have nk: "\<not> reserved_key k" using "3.prems" by simp
  show ?case
  proof (cases "map_of t k = Some JNull")
    case True
    then have "t' = t" using "3.prems"(1) nk by (simp split: if_splits)
    moreover have "k \<in> fst ` set t" using True by (metis map_of_eq_None_iff option.distinct(1))
    ultimately show ?thesis by auto
  next
    case False
    then obtain x' where "t' = AList.update k (JObj x') t"
      using "3.prems"(1) nk by (auto split: if_splits option.splits jsval.splits)
    then show ?thesis by (simp add: dom_update)
  qed
qed

lemma find_invalid_None:
  "find (\<lambda>part. \<not> validateCamelCase part) parts = None \<longleftrightarrow> list_all validateCamelCase parts"
  by (auto simp: find_None_iff list_all_iff)

lemma RuntimeContext_set_guard:
  assumes "\<not> list_all validateCamelCase (split_on CHR ''.'' key)
           \<or> key \<in> set (readonlyKeys rc) \<or> key \<in> set (assignedKeys rc)"
  shows "\<exists>m k. RuntimeContext_set rc key v = Inl (ContextError m k)"
proof (cases "find (\<lambda>part. \<not> validateCamelCase part) (split_on CHR ''.'' key)")
  case None
  then have "list_all validateCamelCase (split_on CHR ''.'' key)"
    by (simp add: find_invalid_None)
  then show ?thesis using assms None by (auto simp: RuntimeContext_set_def)
next
  case (Some part)
  then show ?thesis by (simp add: RuntimeContext_set_def)
qed

lemma RuntimeContext_set_pass:
  assumes "list_all validateCamelCase (split_on CHR ''.'' key)"
    and "key \<notin> set (readonlyKeys rc)" and "key \<notin> set (assignedKeys rc)"
  shows "RuntimeContext_set rc key v =
     (case dset (data rc) key v of
        Some d \<Rightarrow> Inr (rc\<lparr>data := d, assignedKeys := assignedKeys rc @ [key]\<rparr>)
      | None \<Rightarrow> Inl (ContextError (''Failed to set '' @ dq @ key @ dq @ '': '' @ null_access_error)
                       (Some key)))"
proof -
  have "find (\<lambda>part. \<not> validateCamelCase part) (split_on CHR ''.'' key) = None"
    using assms(1) by (simp add: find_invalid_None)
  then show ?thesis using assms(2,3)
    by (simp add: RuntimeContext_set_def set_add_def split: option.splits)
qed

lemma RuntimeContext_set_error:
  "RuntimeContext_set rc key v = Inl e \<Longrightarrow> \<exists>m k. e = ContextError m k"
  by (auto simp: RuntimeContext_set_def split: if_splits option.splits)

lemma PipelineContext_set_Inr:
  "PipelineContext_set ctx key v = Inr ctx' \<longleftrightarrow>
     (list_all validateCamelCase (split_on CHR ''.'' key)
      \<and> key \<notin> set (readonlyKeys (runtimeContext ctx))
      \<and> key \<notin> set (assignedKeys (runtimeContext ctx))
      \<and> (\<exists>d. dset (data (runtimeContext ctx)) key v = Some d
             \<and> ctx' = ctx\<lparr>runtimeContext :=
                   (runtimeContext ctx)\<lparr>data := d,
                                       assignedKeys := assignedKeys (runtimeContext ctx) @ [key]\<rparr>\<rparr>))"
proof (cases "list_all validateCamelCase (split_on CHR ''.'' key)
      \<and> key \<notin> set (readonlyKeys (runtimeContext ctx))
      \<and> key \<notin> set (assignedKeys (runtimeContext ctx))")
  case True
  then show ?thesis
    by (auto simp: PipelineContext_set_def RuntimeContext_set_pass split: option.splits)
next
  case False
  then obtain m k where "RuntimeContext_set (runtimeContext ctx) key v = Inl (ContextError m k)"
    using RuntimeContext_set_guard[of key "runtimeContext ctx" v] by auto
  then show ?thesis using False by (auto simp: PipelineContext_set_def)
qed

lemma PipelineContext_set_Inl:
  "PipelineContext_set ctx key v = Inl e \<Longrightarrow> \<exists>m k. e = ContextError m k"
  by (auto simp: PipelineContext_set_def split: sum.splits dest: RuntimeContext_set_error)

text \<open>
  Claim C3, as amended. A call \<open>set(path, value)\<close> on a \<open>PipelineContext\<close> raises
  \<open>ContextError\<close> when a dot-separated segment of the path does not match
  \<open>[a-z][a-zA-Z0-9]*\<close>, when the path has already been written on this instance, and when
  the path is one of the Facts keys the instance was built with. When none of these holds,
  no segment is \<open>constructor\<close> or \<open>prototype\<close> and the first segment is not a Facts key
  either, the call succeeds exactly when the store does not hold \<open>null\<close> at a proper prefix
  of the path; if it does, the call raises \<open>ContextError\<close> as well. A call either succeeds
  or raises \<open>ContextError\<close>. After a successful call, a second \<open>set\<close> of the same path
  raises \<open>ContextError\<close> whatever its value, and the Facts are untouched; when no segment
  is \<open>constructor\<close> or \<open>prototype\<close>, the value sits at the path in nested objects, one
  segment a level, \<open>get(path)\<close> returns it, and the only top-level key the write may have
  added to the Variables object is the first segment of the path, which holds no dot.
\<close>

theorem set_succeeds_iff_and_stores:
  "(\<not> list_all validateCamelCase (split_on CHR ''.'' key)
      \<or> key \<in> set (assignedKeys (runtimeContext ctx))
      \<or> key \<in> set (readonlyKeys (runtimeContext ctx))
     \<longrightarrow> (\<exists>m k. PipelineContext_set ctx key v = Inl (ContextError m k)))
   \<and> (list_all validateCamelCase (split_on CHR ''.'' key)
        \<and> key \<notin> set (assignedKeys (runtimeContext ctx))
        \<and> key \<notin> set (readonlyKeys (runtimeContext ctx))
        \<and> hd (split_on CHR ''.'' key) \<notin> set (readonlyKeys (runtimeContext ctx))
        \<and> \<not> list_ex reserved_key (split_on CHR ''.'' key)
       \<longrightarrow> ((\<exists>ctx'. PipelineContext_set ctx key v = Inr ctx')
              \<longleftrightarrow> \<not> null_on_path (data (runtimeContext ctx)) (split_on CHR ''.'' key)))
   \<and> ((\<exists>ctx'. PipelineContext_set ctx key v = Inr ctx')
        \<or> (\<exists>m k. PipelineContext_set ctx key v = Inl (ContextError m k)))
   \<and> (\<forall>ctx'. PipelineContext_set ctx key v = Inr ctx' \<longrightarrow>
          (\<forall>v'. \<exists>m k. PipelineContext_set ctx' key v' = Inl (ContextError m k))
          \<and> readonlyContext ctx' = readonlyContext ctx
          \<and> readonlyKeys (runtimeContext ctx') = readonlyKeys (runtimeContext ctx)
          \<and> (\<not> list_ex reserved_key (split_on CHR ''.'' key) \<longrightarrow>
                stored_at (data (runtimeContext ctx')) (split_on CHR ''.'' key) v
                \<and> PipelineContext_get ctx' key = v
                \<and> fst ` set (data (runtimeContext ctx'))
                     = insert (hd (split_on CHR ''.'' key)) (fst ` set (data (runtimeContext ctx)))
                \<and> CHR ''.'' \<notin> set (hd (split_on CHR ''.'' key))))"
proof -
  let ?ks = "split_on CHR ''.'' key"
  let ?rc = "runtimeContext ctx"
  have ne: "?ks \<noteq> []" by (rule split_on_nonempty)
  have a: "\<exists>m k. PipelineContext_set ctx key v = Inl (ContextError m k)"
    if h: "\<not> list_all validateCamelCase ?ks \<or> key \<in> set (assignedKeys ?rc) \<or> key \<in> set (readonlyKeys ?rc)"
  proof -
    obtain m k where "RuntimeContext_set ?rc key v = Inl (ContextError m k)"
      using RuntimeContext_set_guard[of key ?rc v] h by auto
    then show ?thesis by (simp add: PipelineContext_set_def)
  qed
  have b: "(\<exists>ctx'. PipelineContext_set ctx key v = Inr ctx') \<longleftrightarrow> \<not> null_on_path (data ?rc) ?ks"
    if g: "list_all validateCamelCase ?ks" "key \<notin> set (assignedKeys ?rc)"
      "key \<notin> set (readonlyKeys ?rc)" and r: "\<not> list_ex reserved_key ?ks"
  proof -
    have "(\<exists>ctx'. PipelineContext_set ctx key v = Inr ctx') \<longleftrightarrow> dset (data ?rc) key v \<noteq> None"
      using g by (auto simp: PipelineContext_set_Inr)
    then show ?thesis using dset_path_throws[OF r, of "data ?rc" v] by (simp add: dset_def)
  qed
  have c: "(\<exists>ctx'. PipelineContext_set ctx key v = Inr ctx')
        \<or> (\<exists>m k. PipelineContext_set ctx key v = Inl (ContextError m k))"
    using PipelineContext_set_Inl[of ctx key v]
    by (cases "PipelineContext_set ctx key v") auto
  have d: "(\<forall>v'. \<exists>m k. PipelineContext_set ctx' key v' = Inl (ContextError m k))
          \<and> readonlyContext ctx' = readonlyContext ctx
          \<and> readonlyKeys (runtimeContext ctx') = readonlyKeys (runtimeContext ctx)
          \<and> (\<not> list_ex reserved_key ?ks \<longrightarrow>
                stored_at (data (runtimeContext ctx')) ?ks v
                \<and> PipelineContext_get ctx' key = v
                \<and> fst ` set (data (runtimeContext ctx')) = insert (hd ?ks) (fst ` set (data ?rc))
                \<and> CHR ''.'' \<notin> set (hd ?ks))"
    if s: "PipelineContext_set ctx key v = Inr ctx'" for ctx'
  proof -
    from s obtain d where d: "dset (data ?rc) key v = Some d"
      and c': "ctx' = ctx\<lparr>runtimeContext := ?rc\<lparr>data := d, assignedKeys := assignedKeys ?rc @ [key]\<rparr>\<rparr>"
      by (auto simp: PipelineContext_set_Inr)
    have again: "\<exists>m k. PipelineContext_set ctx' key v' = Inl (ContextError m k)" for v'
    proof (cases "PipelineContext_set ctx' key v'")
      case (Inl e)
      then show ?thesis using PipelineContext_set_Inl by blast
    next
      case (Inr c2)
      then have "key \<notin> set (assignedKeys (runtimeContext ctx'))"
        by (simp add: PipelineContext_set_Inr)
      then show ?thesis by (simp add: c')
    qed
    have stored: "stored_at (data (runtimeContext ctx')) ?ks v
                \<and> PipelineContext_get ctx' key = v
                \<and> fst ` set (data (runtimeContext ctx')) = insert (hd ?ks) (fst ` set (data ?rc))
                \<and> CHR ''.'' \<notin> set (hd ?ks)"
      if r: "\<not> list_ex reserved_key ?ks"
    proof -
      have dp: "dset_path (data ?rc) ?ks v = Some d" using d by (simp add: dset_def)
      have st: "stored_at d ?ks v" using dset_path_stores[OF r dp ne] .
      have g: "PipelineContext_get ctx' key = v"
        using stored_at_dlv_path[OF st]
        by (simp add: c' PipelineContext_get_def RuntimeContext_get_def dlv_def)
      have "\<not> reserved_key (hd ?ks)" using r ne by (cases ?ks) simp_all
      then have keys: "fst ` set d = insert (hd ?ks) (fst ` set (data ?rc))"
        using dset_path_keys[OF dp ne] by simp
      have nodot: "CHR ''.'' \<notin> set (hd ?ks)"
        using split_on_parts_no_sep[of "hd ?ks" "CHR ''.''" key] ne by simp
      show ?thesis using st g keys nodot by (simp add: c')
    qed
    show ?thesis using again stored by (simp add: c')
  qed
  show ?thesis using a b c d by blast
qed

theorem set_succeeds_iff_and_stores_witness:
  "PipelineContext_set (new_PipelineContext [(''name'', JStr ''el'')]) ''a.b'' (JNum 1)
     = Inr \<lparr>readonlyContext = [(''name'', JStr ''el'')],
            runtimeContext = \<lparr>data = [(''a'', JObj [(''b'', JNum 1)])],
                              assignedKeys = [''a.b''], readonlyKeys = [''name'']\<rparr>\<rparr>
   \<and> stored_at [(''a'', JObj [(''b'', JNum 1)])] [''a'', ''b''] (JNum 1)
   \<and> PipelineContext_get
        \<lparr>readonlyContext = [(''name'', JStr ''el'')],
         runtimeContext = \<lparr>data = [(''a'', JObj [(''b'', JNum 1)])],
                           assignedKeys = [''a.b''], readonlyKeys = [''name'']\<rparr>\<rparr> ''a.b'' = JNum 1
   \<and> (\<exists>m k. PipelineContext_set
        \<lparr>readonlyContext = [(''name'', JStr ''el'')],
         runtimeContext = \<lparr>data = [(''a'', JObj [(''b'', JNum 1)])],
                           assignedKeys = [''a.b''], readonlyKeys = [''name'']\<rparr>\<rparr> ''a.b'' (JNum 2)
          = Inl (ContextError m k))
   \<and> (\<exists>m k. PipelineContext_set (new_PipelineContext [(''name'', JStr ''el'')]) ''name'' (JNum 1)
          = Inl (ContextError m k))
   \<and> (\<exists>m k. PipelineContext_set (new_PipelineContext [(''name'', JStr ''el'')]) ''a.B-c'' (JNum 1)
          = Inl (ContextError m k))
   \<and> (\<exists>m k. PipelineContext_set
        \<lparr>readonlyContext = [(''name'', JStr ''el'')],
         runtimeContext = \<lparr>data = [(''n'', JNull)],
                           assignedKeys = [''n''], readonlyKeys = [''name'']\<rparr>\<rparr> ''n.x'' (JNum 1)
          = Inl (ContextError m k))"
proof -
  let ?ctx = "new_PipelineContext [(''name'', JStr ''el'')]"
  let ?C = "\<lparr>readonlyContext = [(''name'', JStr ''el'')],
            runtimeContext = \<lparr>data = [(''a'', JObj [(''b'', JNum 1)])],
                              assignedKeys = [''a.b''], readonlyKeys = [''name'']\<rparr>\<rparr>"
  let ?N = "\<lparr>readonlyContext = [(''name'', JStr ''el'')],
            runtimeContext = \<lparr>data = [(''n'', JNull)],
                              assignedKeys = [''n''], readonlyKeys = [''name'']\<rparr>\<rparr>"
  have ks: "split_on CHR ''.'' ''a.b'' = [''a'', ''b'']" by code_simp
  have h: "list_all validateCamelCase (split_on CHR ''.'' ''a.b'')
        \<and> ''a.b'' \<notin> set (assignedKeys (runtimeContext ?ctx))
        \<and> ''a.b'' \<notin> set (readonlyKeys (runtimeContext ?ctx))
        \<and> hd (split_on CHR ''.'' ''a.b'') \<notin> set (readonlyKeys (runtimeContext ?ctx))
        \<and> \<not> list_ex reserved_key (split_on CHR ''.'' ''a.b'')"
    by code_simp
  have free: "\<not> null_on_path (data (runtimeContext ?ctx)) (split_on CHR ''.'' ''a.b'')"
    by code_simp
  note T = set_succeeds_iff_and_stores[where ctx = ?ctx and key = "''a.b''" and v = "JNum 1"]
  from T h free have ex: "\<exists>ctx'. PipelineContext_set ?ctx ''a.b'' (JNum 1) = Inr ctx'"
    by blast
  have s: "PipelineContext_set ?ctx ''a.b'' (JNum 1) = Inr ?C" by code_simp
  have nr: "\<not> list_ex reserved_key (split_on CHR ''.'' ''a.b'')" using h by blast
  from T s nr have g: "stored_at (data (runtimeContext ?C)) (split_on CHR ''.'' ''a.b'') (JNum 1)
      \<and> PipelineContext_get ?C ''a.b'' = JNum 1
      \<and> (\<exists>m k. PipelineContext_set ?C ''a.b'' (JNum 2) = Inl (ContextError m k))"
    by blast
  have n1: "''name'' \<in> set (readonlyKeys (runtimeContext ?ctx))" by code_simp
  have r1: "\<exists>m k. PipelineContext_set ?ctx ''name'' (JNum 1) = Inl (ContextError m k)"
    using set_succeeds_iff_and_stores[where ctx = ?ctx and key = "''name''" and v = "JNum 1"] n1
    by blast
  have n2: "\<not> list_all validateCamelCase (split_on CHR ''.'' ''a.B-c'')" by code_simp
  have r2: "\<exists>m k. PipelineContext_set ?ctx ''a.B-c'' (JNum 1) = Inl (ContextError m k)"
    using set_succeeds_iff_and_stores[where ctx = ?ctx and key = "''a.B-c''" and v = "JNum 1"] n2
    by blast
  have h3: "list_all validateCamelCase (split_on CHR ''.'' ''n.x'')
        \<and> ''n.x'' \<notin> set (assignedKeys (runtimeContext ?N))
        \<and> ''n.x'' \<notin> set (readonlyKeys (runtimeContext ?N))
        \<and> hd (split_on CHR ''.'' ''n.x'') \<notin> set (readonlyKeys (runtimeContext ?N))
        \<and> \<not> list_ex reserved_key (split_on CHR ''.'' ''n.x'')"
    by code_simp
  have blocked: "null_on_path (data (runtimeContext ?N)) (split_on CHR ''.'' ''n.x'')"
    by code_simp
  note T3 = set_succeeds_iff_and_stores[where ctx = ?N and key = "''n.x''" and v = "JNum 1"]
  from T3 h3 blocked have "\<not> (\<exists>ctx'. PipelineContext_set ?N ''n.x'' (JNum 1) = Inr ctx')"
    by blast
  with T3 have r3: "\<exists>m k. PipelineContext_set ?N ''n.x'' (JNum 1) = Inl (ContextError m k)"
    by blast
  have st: "stored_at [(''a'', JObj [(''b'', JNum 1)])] [''a'', ''b''] (JNum 1)"
    using g ks by simp
  show ?thesis using s st g r1 r2 r3 by simp
qed

text \<open>
  Claim C3 as stated does not hold. Success is not decided by the three guards alone: after
  \<open>set("a", null)\<close>, the path \<open>a.b\<close> has valid segments, has not been written and is no
  Facts key, and \<open>set("a.b", 1)\<close> raises \<open>ContextError\<close>, the store having thrown on the
  step through \<open>null\<close>. And a successful write does not always store the value:
  \<open>set("constructor", 1)\<close> succeeds and leaves the Variables object empty, and
  \<open>get("constructor")\<close> then reads the inherited function \<open>Object\<close>.
\<close>

theorem set_below_null_raises_and_constructor_not_stored:
  "PipelineContext_set (new_PipelineContext [(''name'', JStr ''el'')]) ''a'' JNull
     = Inr \<lparr>readonlyContext = [(''name'', JStr ''el'')],
            runtimeContext = \<lparr>data = [(''a'', JNull)],
                              assignedKeys = [''a''], readonlyKeys = [''name'']\<rparr>\<rparr>
   \<and> list_all validateCamelCase (split_on CHR ''.'' ''a.b'')
   \<and> (case PipelineContext_set
        \<lparr>readonlyContext = [(''name'', JStr ''el'')],
         runtimeContext = \<lparr>data = [(''a'', JNull)],
                           assignedKeys = [''a''], readonlyKeys = [''name'']\<rparr>\<rparr> ''a.b'' (JNum 1) of
         Inl (ContextError msg k) \<Rightarrow>
           take 21 msg = ''Failed to set '' @ dq @ ''a.b'' @ dq @ '': '' \<and> k = Some ''a.b''
       | _ \<Rightarrow> False)
   \<and> PipelineContext_set (new_PipelineContext [(''name'', JStr ''el'')]) ''constructor'' (JNum 1)
       = Inr \<lparr>readonlyContext = [(''name'', JStr ''el'')],
              runtimeContext = \<lparr>data = [],
                                assignedKeys = [''constructor''], readonlyKeys = [''name'']\<rparr>\<rparr>
   \<and> PipelineContext_get
        \<lparr>readonlyContext = [(''name'', JStr ''el'')],
         runtimeContext = \<lparr>data = [],
                           assignedKeys = [''constructor''], readonlyKeys = [''name'']\<rparr>\<rparr>
        ''constructor'' = JFun ''Object''"
  by code_simp

lemma conflict_detected:
  assumes "\<not> isAssignmentExpression t" and "k \<in> fst ` set runtimeCtx" and "js_in k readonlyCtx"
  shows "\<exists>m. processTemplate t readonlyCtx runtimeCtx = Inl (TemplateError m None)"
proof -
  have "k \<in> set (filter (\<lambda>key. js_in key readonlyCtx) (map fst runtimeCtx))"
    using assms(2,3) by auto
  then have "filter (\<lambda>key. js_in key readonlyCtx) (map fst runtimeCtx) \<noteq> []"
    by (metis empty_iff list.set(1))
  then show ?thesis using assms(1) by (simp add: processTemplate_def Let_def)
qed

text \<open>
  Claim C6 fails on the code. The guard of \<open>set\<close> compares the whole path with the Facts
  keys, while the Variables object that \<open>processTemplate\<close> merges with the Facts has the
  first segments of the written paths as its keys. With the Fact \<open>name\<close>, which every
  element has, \<open>set("name.x", "v")\<close> succeeds, the path \<open>name.x\<close> being no Facts key; the
  Variables object then has the key \<open>name\<close>, a Facts key, so the two key sets are not
  disjoint in a state that successful \<open>set\<close> calls reach, and from then on the check of
  \<open>processTemplate\<close> fails every template of the element, even one without any expression.
\<close>

theorem nested_write_under_fact_key_collides:
  "PipelineContext_set (new_PipelineContext [(''name'', JStr ''el'')]) ''name.x'' (JStr ''v'')
     = Inr \<lparr>readonlyContext = [(''name'', JStr ''el'')],
            runtimeContext = \<lparr>data = [(''name'', JObj [(''x'', JStr ''v'')])],
                              assignedKeys = [''name.x''], readonlyKeys = [''name'']\<rparr>\<rparr>
   \<and> fst ` set [(''name'', JObj [(''x'', JStr ''v'')])] \<inter> fst ` set [(''name'', JStr ''el'')] = {''name''}
   \<and> PipelineContext_processTemplate
        \<lparr>readonlyContext = [(''name'', JStr ''el'')],
         runtimeContext = \<lparr>data = [(''name'', JObj [(''x'', JStr ''v'')])],
                           assignedKeys = [''name.x''], readonlyKeys = [''name'']\<rparr>\<rparr>
        ''hello''
       = Inl (TemplateError ''Runtime context conflicts with readonly context keys: name'' None)"
proof -
  have a: "PipelineContext_set (new_PipelineContext [(''name'', JStr ''el'')]) ''name.x'' (JStr ''v'')
     = Inr \<lparr>readonlyContext = [(''name'', JStr ''el'')],
            runtimeContext = \<lparr>data = [(''name'', JObj [(''x'', JStr ''v'')])],
                              assignedKeys = [''name.x''], readonlyKeys = [''name'']\<rparr>\<rparr>"
    by code_simp
  have b: "PipelineContext_processTemplate
        \<lparr>readonlyContext = [(''name'', JStr ''el'')],
         runtimeContext = \<lparr>data = [(''name'', JObj [(''x'', JStr ''v'')])],
                           assignedKeys = [''name.x''], readonlyKeys = [''name'']\<rparr>\<rparr>
        ''hello''
       = Inl (TemplateError ''Runtime context conflicts with readonly context keys: name'' None)"
    by code_simp
  show ?thesis using a b by simp
qed

text \<open>
  The second check does what claim C6 says of it. On a template that is not an Assignment
  Expression, \<open>processTemplate\<close> fails with \<open>TemplateError\<close>, before anything is merged,
  when a key of the Variables object is a key of the Facts object, own or inherited; an
  Assignment Expression is returned before the check.
\<close>

theorem processTemplate_rechecks_collisions:
  "(\<not> isAssignmentExpression t \<and> k \<in> fst ` set runtimeCtx \<and> js_in k readonlyCtx
        \<longrightarrow> (\<exists>m. processTemplate t readonlyCtx runtimeCtx = Inl (TemplateError m None)))
   \<and> (isAssignmentExpression t \<longrightarrow> processTemplate t readonlyCtx runtimeCtx = Inr t)"
proof -
  have b: "\<not> isAssignmentExpression t \<and> k \<in> fst ` set runtimeCtx \<and> js_in k readonlyCtx
        \<longrightarrow> (\<exists>m. processTemplate t readonlyCtx runtimeCtx = Inl (TemplateError m None))"
    using conflict_detected[of t k runtimeCtx readonlyCtx] by blast
  have c: "isAssignmentExpression t \<longrightarrow> processTemplate t readonlyCtx runtimeCtx = Inr t"
    by (simp add: processTemplate_def)
  show ?thesis using b c by blast
qed

theorem processTemplate_rechecks_collisions_witness:
  "(\<exists>m. processTemplate ''hello'' [(''name'', JStr ''el'')] [(''name'', JStr ''other'')]
          = Inl (TemplateError m None))
   \<and> (\<exists>m. processTemplate ''hello'' [(''name'', JStr ''el'')] [(''toString'', JStr ''other'')]
          = Inl (TemplateError m None))
   \<and> processTemplate ''$>{{ name }}'' [(''name'', JStr ''el'')] [(''name'', JStr ''other'')]
       = Inr ''$>{{ name }}''"
proof -
  have n: "\<not> isAssignmentExpression ''hello''" by code_simp
  have y: "isAssignmentExpression ''$>{{ name }}''" by code_simp
  have k: "''name'' \<in> fst ` set [(''name'', JStr ''other'')]"
      "js_in ''name'' [(''name'', JStr ''el'')]" by (simp_all add: js_in_def)
  have k2: "''toString'' \<in> fst ` set [(''toString'', JStr ''other'')]" by simp
  have k3: "js_in ''toString'' [(''name'', JStr ''el'')]" by code_simp
  have e: "\<exists>m. processTemplate ''hello'' [(''name'', JStr ''el'')] [(''name'', JStr ''other'')]
          = Inl (TemplateError m None)"
    using processTemplate_rechecks_collisions[of "''hello''" "''name''"
        "[(''name'', JStr ''other'')]" "[(''name'', JStr ''el'')]"] n k
    by blast
  have e2: "\<exists>m. processTemplate ''hello'' [(''name'', JStr ''el'')] [(''toString'', JStr ''other'')]
          = Inl (TemplateError m None)"
    using processTemplate_rechecks_collisions[of "''hello''" "''toString''"
        "[(''toString'', JStr ''other'')]" "[(''name'', JStr ''el'')]"] n k2 k3
    by blast
  have f: "processTemplate ''$>{{ name }}'' [(''name'', JStr ''el'')] [(''name'', JStr ''other'')]
       = Inr ''$>{{ name }}''"
    using processTemplate_rechecks_collisions[of "''$>{{ name }}''" "''name''"
        "[(''name'', JStr ''other'')]" "[(''name'', JStr ''el'')]"] y
    by blast
  show ?thesis using e e2 f by simp
qed


section \<open>Properties of the context: templates\<close>

lemma expand_match_error:
  "expand_match mergedContext result m = Inl e \<Longrightarrow> \<exists>msg k. e = TemplateError msg k"
  by (cases m) (auto simp: expand_match_def split: if_splits option.splits jsval.splits)

lemma expand_matches_error:
  "expand_matches mergedContext result ms = Inl e \<Longrightarrow> \<exists>msg k. e = TemplateError msg k"
  by (induction ms arbitrary: result) (auto split: sum.splits dest: expand_match_error)

lemma expand_match_unresolved:
  assumes "p \<noteq> []"
    and "resolvePath mergedContext p = JUndefined
         \<or> (\<exists>obj. resolvePath mergedContext p = JObj obj)"
  shows "\<exists>msg k. expand_match mergedContext result (full, p) = Inl (TemplateError msg k)"
  using assms by (auto simp: expand_match_def split: option.splits)

lemma expand_matches_unresolved:
  assumes "(full, p) \<in> set ms" and "p \<noteq> []"
    and "resolvePath mergedContext p = JUndefined
         \<or> (\<exists>obj. resolvePath mergedContext p = JObj obj)"
  shows "\<exists>msg k. expand_matches mergedContext result ms = Inl (TemplateError msg k)"
  using assms(1)
proof (induction ms arbitrary: result)
  case Nil
  then show ?case by simp
next
  case (Cons m ms)
  show ?case
  proof (cases "expand_match mergedContext result m")
    case (Inl e)
    then show ?thesis using expand_match_error[OF Inl] by auto
  next
    case (Inr r')
    then have "m \<noteq> (full, p)"
      using expand_match_unresolved[OF assms(2,3), of result full] by auto
    then have "(full, p) \<in> set ms" using Cons.prems by simp
    then show ?thesis using Cons.IH[of r'] Inr by simp
  qed
qed

text \<open>
  Every failure of \<open>processTemplate\<close> is a \<open>TemplateError\<close>, and it does fail when the
  template (not an Assignment Expression) holds an expression whose path is undefined in
  the merged context or resolves to an object.
\<close>

theorem unresolved_path_is_TemplateError:
  "(processTemplate t readonlyCtx runtimeCtx = Inl e \<longrightarrow> (\<exists>msg k. e = TemplateError msg k))
   \<and> (\<not> isAssignmentExpression t \<and> (full, p) \<in> set (find_matches t) \<and> p \<noteq> []
        \<and> (resolvePath (spread readonlyCtx runtimeCtx) p = JUndefined
             \<or> (\<exists>obj. resolvePath (spread readonlyCtx runtimeCtx) p = JObj obj))
       \<longrightarrow> (\<exists>msg k. processTemplate t readonlyCtx runtimeCtx = Inl (TemplateError msg k)))"
proof -
  have a: "processTemplate t readonlyCtx runtimeCtx = Inl e \<longrightarrow> (\<exists>msg k. e = TemplateError msg k)"
    by (auto simp: processTemplate_def Let_def split: if_splits dest: expand_matches_error)
  have b: "\<exists>msg k. processTemplate t readonlyCtx runtimeCtx = Inl (TemplateError msg k)"
    if "\<not> isAssignmentExpression t" "(full, p) \<in> set (find_matches t)" "p \<noteq> []"
      "resolvePath (spread readonlyCtx runtimeCtx) p = JUndefined
             \<or> (\<exists>obj. resolvePath (spread readonlyCtx runtimeCtx) p = JObj obj)"
    using expand_matches_unresolved[OF that(2,3,4), of t] that(1)
    by (auto simp: processTemplate_def Let_def)
  show ?thesis using a b by blast
qed

theorem unresolved_path_is_TemplateError_witness:
  "(\<exists>msg k. processTemplate ''a ${{ ctx.y }} b'' [(''name'', JStr ''el'')]
       [(''ctx'', JObj [(''x'', JStr ''v'')])] = Inl (TemplateError msg k))
   \<and> (\<exists>msg k. processTemplate ''a ${{ ctx }} b'' [(''name'', JStr ''el'')]
       [(''ctx'', JObj [(''x'', JStr ''v'')])] = Inl (TemplateError msg k))"
proof -
  let ?ro = "[(''name'', JStr ''el'')]" and ?rt = "[(''ctx'', JObj [(''x'', JStr ''v'')])]"
  have n1: "\<not> isAssignmentExpression ''a ${{ ctx.y }} b''" by code_simp
  have m1: "(''${{ ctx.y }}'', ''ctx.y'') \<in> set (find_matches ''a ${{ ctx.y }} b'')" by code_simp
  have r1: "resolvePath (spread ?ro ?rt) ''ctx.y'' = JUndefined" by code_simp
  have n2: "\<not> isAssignmentExpression ''a ${{ ctx }} b''" by code_simp
  have m2: "(''${{ ctx }}'', ''ctx'') \<in> set (find_matches ''a ${{ ctx }} b'')" by code_simp
  have r2: "resolvePath (spread ?ro ?rt) ''ctx'' = JObj [(''x'', JStr ''v'')]" by code_simp
  have a: "\<exists>msg k. processTemplate ''a ${{ ctx.y }} b'' ?ro ?rt = Inl (TemplateError msg k)"
    using unresolved_path_is_TemplateError[of "''a ${{ ctx.y }} b''" ?ro ?rt _ "''${{ ctx.y }}''" "''ctx.y''"]
      n1 m1 r1 by simp
  have b: "\<exists>msg k. processTemplate ''a ${{ ctx }} b'' ?ro ?rt = Inl (TemplateError msg k)"
    using unresolved_path_is_TemplateError[of "''a ${{ ctx }} b''" ?ro ?rt _ "''${{ ctx }}''" "''ctx''"]
      n2 m2 r2 by simp
  show ?thesis using a b by simp
qed

text \<open>
  Claim C4 fails on the code. The example of the spec holds: after \<open>set("ctx.x", "v")\<close>,
  \<open>processTemplate("${{ ctx.x }}")\<close> is \<open>"v"\<close>, and a number is written in decimal. But an
  expression is not always replaced by the string form of its value: the value goes through
  \<open>String.replace\<close> as a replacement pattern, so the value \<open>$&\<close> leaves the expression in
  place and the value \<open>$$\<close> comes out as \<open>$\<close>; and each replacement is made at the first
  occurrence in the text as rewritten so far, so when the value of \<open>ctx.x\<close> is the text
  \<open>${{ ctx.y }}\<close>, the second expression of \<open>${{ ctx.x }} ${{ ctx.y }}\<close> stays unexpanded.
\<close>

theorem processTemplate_value_not_substituted_literally:
  "processTemplate ''${{ ctx.x }}'' [(''name'', JStr ''el'')] [(''ctx'', JObj [(''x'', JStr ''v'')])]
     = Inr ''v''
   \<and> processTemplate ''n = ${{ ctx.n }}'' [(''name'', JStr ''el'')] [(''ctx'', JObj [(''n'', JNum 42)])]
     = Inr ''n = 42''
   \<and> processTemplate ''${{ ctx.x }}'' [(''name'', JStr ''el'')] [(''ctx'', JObj [(''x'', JStr ''$&'')])]
     = Inr ''${{ ctx.x }}''
   \<and> processTemplate ''${{ ctx.x }}'' [(''name'', JStr ''el'')] [(''ctx'', JObj [(''x'', JStr ''$$'')])]
     = Inr ''$''
   \<and> processTemplate ''${{ ctx.x }} ${{ ctx.y }}'' [(''name'', JStr ''el'')]
        [(''ctx'', JObj [(''x'', JStr ''${{ ctx.y }}''), (''y'', JStr ''B'')])]
     = Inr ''B ${{ ctx.y }}''"
  by code_simp


section \<open>Properties of the concurrency pool\<close>

lemma filter_length_update:
  assumes "i < length xs" "\<not> Q (xs ! i)" "Q y"
  shows "length (filter Q (xs[i := y])) = Suc (length (filter Q xs))"
proof -
  have a: "xs[i := y] = take i xs @ y # drop (Suc i) xs"
    using assms(1) by (simp add: upd_conv_take_nth_drop)
  have b: "xs = take i xs @ xs ! i # drop (Suc i) xs"
    using assms(1) by (simp add: id_take_nth_drop)
  have "length (filter Q xs) = length (filter Q (take i xs)) + length (filter Q (drop (Suc i) xs))"
    using assms(2) by (subst b) simp
  moreover have "length (filter Q (xs[i := y]))
      = length (filter Q (take i xs)) + Suc (length (filter Q (drop (Suc i) xs)))"
    using assms(3) by (subst a) simp
  ultimately show ?thesis by simp
qed

lemma pool_init_prefix:
  "k \<le> P \<Longrightarrow> P \<le> length tasks \<Longrightarrow>
   foldl (\<lambda>st w. claim tasks w st)
       \<lparr>results = replicate (length tasks) None, taskIndex = 0,
        workers = replicate P Returned, claimed = [], rejected = None\<rparr> [0..<k]
   = \<lparr>results = replicate (length tasks) None, taskIndex = k,
      workers = map Awaiting [0..<k] @ replicate (P - k) Returned, claimed = [0..<k],
      rejected = None\<rparr>"
proof (induction k)
  case 0
  then show ?case by simp
next
  case (Suc k)
  have r: "replicate (P - k) Returned = Returned # replicate (P - Suc k) Returned"
    using Suc.prems by (metis Suc_diff_Suc Suc_le_lessD replicate_Suc)
  have u: "(map Awaiting [0..<k] @ replicate (P - k) Returned)[k := Awaiting k]
        = map Awaiting [0..<Suc k] @ replicate (P - Suc k) Returned"
    by (simp add: list_update_append r)
  show ?case using Suc u by (simp add: claim_def Let_def)
qed

lemma pool_init_closed:
  "P \<le> length tasks \<Longrightarrow>
   pool_init tasks P
   = \<lparr>results = replicate (length tasks) None, taskIndex = P,
      workers = map Awaiting [0..<P], claimed = [0..<P], rejected = None\<rparr>"
  using pool_init_prefix[of P P tasks] by (simp add: pool_init_def)

lemma pool_inv_init:
  "P \<le> length tasks \<Longrightarrow> pool_inv tasks P (pool_init tasks P)"
proof -
  assume le: "P \<le> length tasks"
  have "\<exists>w<P. map Awaiting [0..<P] ! w = Awaiting i" if "i < P" for i
    using that by (intro exI[of _ i]) simp
  then show ?thesis using le by (simp add: pool_init_closed pool_inv_def)
qed

lemma completed_init: "P \<le> length tasks \<Longrightarrow> completed (pool_init tasks P) = 0"
  by (simp add: pool_init_closed completed_def)

lemma pool_invD:
  assumes "pool_inv tasks P st"
  shows "length (results st) = length tasks" "length (workers st) = P"
    "claimed st = [0..<min (taskIndex st) (length tasks)]"
    "rejected st = None"
    "\<forall>w<P. workers st ! w \<noteq> Threw"
    "\<forall>w<P. \<forall>i. workers st ! w = Awaiting i \<longrightarrow>
             i < taskIndex st \<and> i < length tasks \<and> results st ! i = None
             \<and> (\<forall>w'<P. workers st ! w' = Awaiting i \<longrightarrow> w' = w)"
    "\<forall>i<length tasks. results st ! i = None \<or> results st ! i = Some (projr (tasks ! i))"
    "\<forall>i<length tasks. i < taskIndex st \<and> results st ! i = None
             \<longrightarrow> (\<exists>w<P. workers st ! w = Awaiting i)"
    "\<forall>i<length tasks. taskIndex st \<le> i \<longrightarrow> results st ! i = None"
    "\<forall>w<P. workers st ! w = Returned \<longrightarrow> length tasks \<le> taskIndex st"
proof -
  note u = assms[unfolded pool_inv_def]
  show "length (results st) = length tasks" using u by (elim conjE)
  show "length (workers st) = P" using u by (elim conjE)
  show "claimed st = [0..<min (taskIndex st) (length tasks)]" using u by (elim conjE)
  show "rejected st = None" using u by (elim conjE)
  show "\<forall>w<P. workers st ! w \<noteq> Threw" using u by (elim conjE)
  show "\<forall>w<P. \<forall>i. workers st ! w = Awaiting i \<longrightarrow>
             i < taskIndex st \<and> i < length tasks \<and> results st ! i = None
             \<and> (\<forall>w'<P. workers st ! w' = Awaiting i \<longrightarrow> w' = w)" using u by (elim conjE)
  show "\<forall>i<length tasks. results st ! i = None \<or> results st ! i = Some (projr (tasks ! i))"
    using u by (elim conjE)
  show "\<forall>i<length tasks. i < taskIndex st \<and> results st ! i = None
             \<longrightarrow> (\<exists>w<P. workers st ! w = Awaiting i)" using u by (elim conjE)
  show "\<forall>i<length tasks. taskIndex st \<le> i \<longrightarrow> results st ! i = None" using u by (elim conjE)
  show "\<forall>w<P. workers st ! w = Returned \<longrightarrow> length tasks \<le> taskIndex st" using u by (elim conjE)
qed


lemma settle_preserves:
  assumes inv: "pool_inv tasks P st"
    and res: "\<forall>i<length tasks. \<exists>v. tasks ! i = Inr v"
    and s: "settle tasks w st = Some st'"
  shows "pool_inv tasks P st' \<and> completed st' = Suc (completed st)
         \<and> taskIndex st' = Suc (taskIndex st)"
proof -
  define T where "T = taskIndex st"
  note d = pool_invD[OF inv]
  have lens: "length (results st) = length tasks" "length (workers st) = P"
    using d(1,2) by simp_all
  have i2: "claimed st = [0..<min T (length tasks)]" using d(3) by (simp add: T_def)
  have i3: "rejected st = None" using d(4) by simp
  have i4: "\<forall>w<P. workers st ! w \<noteq> Threw" using d(5) by simp
  have i5: "\<forall>w<P. \<forall>i. workers st ! w = Awaiting i \<longrightarrow>
             i < T \<and> i < length tasks \<and> results st ! i = None
             \<and> (\<forall>w'<P. workers st ! w' = Awaiting i \<longrightarrow> w' = w)"
    unfolding T_def by (rule d(6))
  have i6: "\<forall>i<length tasks. results st ! i = None \<or> results st ! i = Some (projr (tasks ! i))"
    by (rule d(7))
  have i7: "\<forall>i<length tasks. i < T \<and> results st ! i = None
             \<longrightarrow> (\<exists>w<P. workers st ! w = Awaiting i)"
    unfolding T_def by (rule d(8))
  have i8: "\<forall>i<length tasks. T \<le> i \<longrightarrow> results st ! i = None"
    unfolding T_def by (rule d(9))
  have i9: "\<forall>w<P. workers st ! w = Returned \<longrightarrow> length tasks \<le> T"
    unfolding T_def by (rule d(10))
  from s obtain i where w: "w < length (workers st)" and aw: "workers st ! w = Awaiting i"
    by (auto simp: settle_def split: if_splits worker.splits)
  have wP: "w < P" using w lens by simp
  from i5 wP aw have i: "i < T" "i < length tasks" "results st ! i = None"
    and uniq: "\<forall>w'<P. workers st ! w' = Awaiting i \<longrightarrow> w' = w"
    by blast+
  obtain v where v: "tasks ! i = Inr v" using res i(2) by blast
  define R where "R = (results st)[i := Some v]"
  define W where "W = (workers st)[w := (if T \<ge> length tasks then Returned else Awaiting T)]"
  define C where "C = (if T \<ge> length tasks then claimed st else claimed st @ [T])"
  have st': "st' = claim tasks w (st\<lparr>results := R\<rparr>)"
    using s w aw v by (simp add: settle_def R_def)
  have g: "results st' = R" "taskIndex st' = Suc T" "workers st' = W" "rejected st' = rejected st"
      "claimed st' = C"
    by (simp_all add: st' claim_def Let_def W_def T_def C_def)
  have Rn: "R ! j = (if j = i then Some v else results st ! j)" if "j < length tasks" for j
    using that lens i(2) by (simp add: R_def nth_list_update)
  have Wn: "W ! u = (if u = w then (if T \<ge> length tasks then Returned else Awaiting T)
                     else workers st ! u)" if "u < P" for u
    using that lens by (simp add: W_def nth_list_update)
  have c1: "length R = length tasks" "length W = P" using lens by (simp_all add: R_def W_def)
  have c2: "C = [0..<min (Suc T) (length tasks)]"
  proof (cases "T \<ge> length tasks")
    case True
    then show ?thesis using i2 by (simp add: C_def min_def)
  next
    case False
    then show ?thesis using i2 by (simp add: C_def min_def)
  qed
  have c3: "\<forall>u<P. W ! u \<noteq> Threw"
  proof (intro allI impI)
    fix u assume "u < P"
    then show "W ! u \<noteq> Threw" using i4 Wn[of u] by simp
  qed
  have old_aw: "j < T \<and> j < length tasks \<and> results st ! j = None
             \<and> (\<forall>w'<P. workers st ! w' = Awaiting j \<longrightarrow> w' = u)"
    if "u < P" "workers st ! u = Awaiting j" for u j
    using i5 that by blast
  have c4: "\<forall>u<P. \<forall>j. W ! u = Awaiting j \<longrightarrow>
             j < Suc T \<and> j < length tasks \<and> R ! j = None
             \<and> (\<forall>w'<P. W ! w' = Awaiting j \<longrightarrow> w' = u)"
  proof (intro allI impI)
    fix u j assume u: "u < P" and a: "W ! u = Awaiting j"
    show "j < Suc T \<and> j < length tasks \<and> R ! j = None
             \<and> (\<forall>w'<P. W ! w' = Awaiting j \<longrightarrow> w' = u)"
    proof (cases "u = w")
      case True
      then have jT: "j = T" "T < length tasks" using a Wn[OF u] by (simp_all split: if_splits)
      have "results st ! T = None" using i8 jT(2) by simp
      then have RT: "R ! T = None" using jT(2) i(1) Rn[of T] by simp
      have "w' = w" if "w' < P" "W ! w' = Awaiting T" for w'
      proof (rule ccontr)
        assume "w' \<noteq> w"
        then have "workers st ! w' = Awaiting T" using that Wn[of w'] by simp
        then show False using old_aw[of w' T] that(1) by simp
      qed
      then show ?thesis using jT True RT by simp
    next
      case False
      then have o: "workers st ! u = Awaiting j" using a Wn[OF u] by simp
      note oa = old_aw[OF u o]
      have ji: "j \<noteq> i" using uniq u o False by blast
      have "w' = u" if "w' < P" "W ! w' = Awaiting j" for w'
      proof (cases "w' = w")
        case True
        then have "j = T" using that Wn[of w'] by (simp split: if_splits)
        then show ?thesis using oa by simp
      next
        case False
        then show ?thesis using that Wn[of w'] oa by simp
      qed
      then show ?thesis using oa ji Rn[of j] by simp
    qed
  qed
  have c5: "\<forall>j<length tasks. R ! j = None \<or> R ! j = Some (projr (tasks ! j))"
  proof (intro allI impI)
    fix j assume "j < length tasks"
    then show "R ! j = None \<or> R ! j = Some (projr (tasks ! j))"
      using i6 Rn[of j] v by (cases "j = i") simp_all
  qed
  have c6: "\<forall>j<length tasks. j < Suc T \<and> R ! j = None \<longrightarrow> (\<exists>u<P. W ! u = Awaiting j)"
  proof (intro allI impI)
    fix j assume j: "j < length tasks" and j2: "j < Suc T \<and> R ! j = None"
    show "\<exists>u<P. W ! u = Awaiting j"
    proof (cases "j = T")
      case True
      then have "W ! w = Awaiting j" using Wn[OF wP] j by simp
      then show ?thesis using wP by blast
    next
      case False
      then have "j < T" using j2 by simp
      moreover have ji: "j \<noteq> i" "results st ! j = None"
        using j j2 Rn[of j] by (auto split: if_splits)
      ultimately obtain u where u: "u < P" "workers st ! u = Awaiting j"
        using i7 j by blast
      then have "u \<noteq> w" using aw ji by auto
      then have "W ! u = Awaiting j" using u Wn[of u] by simp
      then show ?thesis using u(1) by blast
    qed
  qed
  have c7: "\<forall>j<length tasks. Suc T \<le> j \<longrightarrow> R ! j = None"
  proof (intro allI impI)
    fix j assume "j < length tasks" "Suc T \<le> j"
    then show "R ! j = None" using i8 Rn[of j] i(1) by simp
  qed
  have c8: "\<forall>u<P. W ! u = Returned \<longrightarrow> length tasks \<le> Suc T"
  proof (intro allI impI)
    fix u assume "u < P" "W ! u = Returned"
    then show "length tasks \<le> Suc T"
      using i9 Wn[of u] by (cases "u = w") (auto split: if_splits)
  qed
  have f: "results st' = R" "taskIndex st' = Suc T" "workers st' = W" "rejected st' = None"
      "claimed st' = [0..<min (Suc T) (length tasks)]"
    using i3 c2 g by simp_all
  have I: "pool_inv tasks P st'"
    unfolding pool_inv_def f
    by (intro conjI) (fact c1 c3 c4 c5 c6 c7 c8 refl)+
  have Cm: "completed st' = Suc (completed st)"
    using filter_length_update[of i "results st" "\<lambda>r. r \<noteq> None" "Some v"] i lens
    by (simp add: completed_def g R_def)
  show ?thesis using I Cm by (simp add: f T_def)
qed

lemma pool_run_preserves:
  assumes res: "\<forall>i<length tasks. \<exists>v. tasks ! i = Inr v"
  shows "pool_inv tasks P st \<Longrightarrow> pool_run tasks sched st = Some st' \<Longrightarrow>
         pool_inv tasks P st' \<and> completed st' = completed st + length sched
         \<and> taskIndex st' = taskIndex st + length sched"
proof (induction sched arbitrary: st)
  case Nil
  then show ?case by simp
next
  case (Cons w ws)
  from Cons.prems(2) obtain s1 where s1: "settle tasks w st = Some s1" "pool_run tasks ws s1 = Some st'"
    by (auto split: option.splits)
  from settle_preserves[OF Cons.prems(1) res s1(1)] Cons.IH[OF _ s1(2)]
  show ?case by simp
qed


lemma filter_all_length:
  assumes "length (filter Q xs) = length xs"
  shows "\<forall>x \<in> set xs. Q x"
proof (rule ballI, rule ccontr)
  fix x assume "x \<in> set xs" "\<not> Q x"
  then have "length (filter Q xs) < length xs" by (rule length_filter_less)
  then show False using assms by simp
qed

lemma pool_unfinished:
  assumes inv: "pool_inv tasks P st" and P: "0 < P"
    and c: "completed st < length tasks"
  shows "\<exists>w<P. \<exists>j. workers st ! w = Awaiting j"
proof -
  note d = pool_invD[OF inv]
  have "\<exists>i<length tasks. results st ! i = None"
  proof (rule ccontr)
    assume "\<not> (\<exists>i<length tasks. results st ! i = None)"
    then have "\<forall>r \<in> set (results st). r \<noteq> None"
      using d(1) by (auto simp: in_set_conv_nth)
    then have "filter (\<lambda>r. r \<noteq> None) (results st) = results st" by simp
    then show False using c d(1) by (simp add: completed_def)
  qed
  then obtain i where i: "i < length tasks" "results st ! i = None" by blast
  show ?thesis
  proof (cases "i < taskIndex st")
    case True
    then show ?thesis using d(8) i by blast
  next
    case False
    then have "\<not> length tasks \<le> taskIndex st" using i(1) by simp
    then have "workers st ! 0 \<noteq> Returned" using d(10) P by blast
    moreover have "workers st ! 0 \<noteq> Threw" using d(5) P by blast
    ultimately obtain j where "workers st ! 0 = Awaiting j"
      by (cases "workers st ! 0") auto
    then show ?thesis using P by blast
  qed
qed

lemma settle_possible:
  assumes "w < length (workers st)" "workers st ! w = Awaiting j"
  shows "settle tasks w st \<noteq> None"
  using assms by (cases "tasks ! j") (simp_all add: settle_def)

lemma pool_finished:
  assumes inv: "pool_inv tasks P st" and c: "completed st = length tasks"
  shows "list_all (\<lambda>w. w = Returned) (workers st)"
    and "results st = map (\<lambda>t. Some (projr t)) tasks"
proof -
  note d = pool_invD[OF inv]
  have "length (filter (\<lambda>r. r \<noteq> None) (results st)) = length (results st)"
    using c d(1) by (simp add: completed_def)
  then have all: "\<forall>r \<in> set (results st). r \<noteq> None" by (rule filter_all_length)
  have some: "results st ! i = Some (projr (tasks ! i))" if "i < length tasks" for i
  proof -
    have "results st ! i \<in> set (results st)" using that d(1) by simp
    then have ne: "results st ! i \<noteq> None" by (rule all[rule_format])
    from d(7)[rule_format, OF that] ne show ?thesis by simp
  qed
  have ret: "workers st ! w = Returned" if "w < P" for w
  proof (cases "workers st ! w")
    case (Awaiting j)
    from d(6)[rule_format, OF that Awaiting]
    have "j < length tasks" "results st ! j = None" by simp_all
    then show ?thesis using some[of j] by simp
  next
    case Returned
    then show ?thesis .
  next
    case Threw
    then show ?thesis using d(5)[rule_format, OF that] by simp
  qed
  have "\<forall>x \<in> set (workers st). x = Returned"
  proof (rule ballI)
    fix x assume "x \<in> set (workers st)"
    then obtain w where "w < length (workers st)" "workers st ! w = x"
      by (auto simp: in_set_conv_nth)
    then show "x = Returned" using ret[of w] d(2) by simp
  qed
  then show "list_all (\<lambda>w. w = Returned) (workers st)" by (simp add: list_all_iff)
  show "results st = map (\<lambda>t. Some (projr t)) tasks"
  proof (rule nth_equalityI)
    show "length (results st) = length (map (\<lambda>t. Some (projr t)) tasks)" using d(1) by simp
  next
    fix i assume "i < length (results st)"
    then have "i < length tasks" using d(1) by simp
    then show "results st ! i = map (\<lambda>t. Some (projr t)) tasks ! i" using some[of i] by simp
  qed
qed

lemma pool_reachable:
  assumes c: "1 \<le> concurrency" and res: "\<forall>i<length tasks. \<exists>v. tasks ! i = Inr v"
    and ne: "tasks \<noteq> []"
    and run: "pool_run tasks schedule (pool_init tasks (min (nat concurrency) (length tasks))) = Some st"
  shows "pool_inv tasks (min (nat concurrency) (length tasks)) st"
    and "completed st = length schedule"
    and "taskIndex st = min (nat concurrency) (length tasks) + length schedule"
    and "0 < min (nat concurrency) (length tasks)"
proof -
  let ?P = "min (nat concurrency) (length tasks)"
  have le: "?P \<le> length tasks" by simp
  note p = pool_run_preserves[OF res pool_inv_init[OF le] run]
  show "pool_inv tasks ?P st" using p by simp
  show "completed st = length schedule" using p completed_init[OF le] by simp
  show "taskIndex st = ?P + length schedule" using p by (simp add: pool_init_closed)
  show "0 < ?P" using c ne by simp
qed


text \<open>
  Claim C8. Let the concurrency be a positive integer and let every task resolve. In
  whatever order the awaited tasks settle: no index is claimed twice (the claimed indices are
  \<open>0, 1, 2, ...\<close> in order, all below \<open>N\<close>); at most \<open>min(C, N)\<close> workers exist; as long as
  fewer than \<open>N\<close> tasks have settled the promise is pending and some worker awaits a task,
  so the run goes on; no run has more than \<open>N\<close> steps; and once \<open>N\<close> tasks have settled
  \<open>runPromisePool\<close> returns the array of length \<open>N\<close> whose entry at index \<open>i\<close> is the
  result of task \<open>i\<close>. For an empty task list it returns the empty array.
\<close>

theorem runPromisePool_results_in_input_order:
  "1 \<le> concurrency \<and> (\<forall>i<length tasks. \<exists>v. tasks ! i = Inr v) \<longrightarrow>
     (\<forall>schedule st.
         tasks \<noteq> []
         \<and> pool_run tasks schedule (pool_init tasks (min (nat concurrency) (length tasks))) = Some st
         \<longrightarrow> length schedule \<le> length tasks
             \<and> claimed st = [0..<min (min (nat concurrency) (length tasks) + length schedule) (length tasks)]
             \<and> distinct (claimed st)
             \<and> length (workers st) = min (nat concurrency) (length tasks)
             \<and> (length schedule < length tasks
                  \<longrightarrow> runPromisePool tasks concurrency schedule = None
                      \<and> (\<exists>w. settle tasks w st \<noteq> None))
             \<and> (length schedule = length tasks
                  \<longrightarrow> runPromisePool tasks concurrency schedule
                        = Some (Inr (map (\<lambda>t. Some (projr t)) tasks))))
     \<and> (tasks = [] \<longrightarrow> runPromisePool tasks concurrency schedule' = Some (Inr []))"
proof (intro impI conjI allI)
  fix schedule st
  assume h: "1 \<le> concurrency \<and> (\<forall>i<length tasks. \<exists>v. tasks ! i = Inr v)"
    and r: "tasks \<noteq> []
         \<and> pool_run tasks schedule (pool_init tasks (min (nat concurrency) (length tasks))) = Some st"
  let ?P = "min (nat concurrency) (length tasks)"
  from h r have c: "1 \<le> concurrency" and res: "\<forall>i<length tasks. \<exists>v. tasks ! i = Inr v"
    and ne: "tasks \<noteq> []" and run: "pool_run tasks schedule (pool_init tasks ?P) = Some st"
    by simp_all
  note R = pool_reachable[OF c res ne run]
  note d = pool_invD[OF R(1)]
  have rp: "runPromisePool tasks concurrency schedule = pool_outcome st"
    using c ne run by (simp add: runPromisePool_def)
  show "length schedule \<le> length tasks"
    using R(2) d(1) length_filter_le[of "\<lambda>r. r \<noteq> None" "results st"]
    by (simp add: completed_def)
  show cl: "claimed st = [0..<min (?P + length schedule) (length tasks)]"
    using d(3) R(3) by simp
  show "distinct (claimed st)" using cl by simp
  show "length (workers st) = ?P" using d(2) .
  {
    assume lt: "length schedule < length tasks"
    obtain w j where w: "w < ?P" "workers st ! w = Awaiting j"
      using pool_unfinished[OF R(1) R(4)] lt R(2) by auto
    have "workers st ! w \<in> set (workers st)" using w(1) d(2) by simp
    then have "\<not> list_all (\<lambda>w. w = Returned) (workers st)"
      using w(2) by (auto simp: list_all_iff)
    then show "runPromisePool tasks concurrency schedule = None"
      using rp d(4) by (simp add: pool_outcome_def)
    show "\<exists>w. settle tasks w st \<noteq> None"
      using settle_possible[of w st j tasks] w d(2) by auto
  }
  {
    assume eq: "length schedule = length tasks"
    note F = pool_finished[OF R(1)]
    show "runPromisePool tasks concurrency schedule = Some (Inr (map (\<lambda>t. Some (projr t)) tasks))"
      using rp d(4) F eq R(2) by (simp add: pool_outcome_def)
  }
next
  assume "1 \<le> concurrency \<and> (\<forall>i<length tasks. \<exists>v. tasks ! i = Inr v)" "tasks = []"
  then show "runPromisePool tasks concurrency schedule' = Some (Inr [])"
    by (simp add: runPromisePool_def)
qed


theorem runPromisePool_results_in_input_order_witness:
  "runPromisePool [Inr (10::nat), Inr 20, Inr 30] 2 [1, 0, 1] = Some (Inr [Some 10, Some 20, Some 30])
   \<and> runPromisePool [Inr (10::nat), Inr 20, Inr 30] 2 [1, 0] = None
   \<and> runPromisePool ([] :: (error + nat) list) 2 [] = Some (Inr [])"
proof -
  let ?tasks = "[Inr (10::nat), Inr 20, Inr 30] :: (error + nat) list"
  have c: "(1::int) \<le> 2" by simp
  have res: "\<forall>i<length ?tasks. \<exists>v. ?tasks ! i = Inr v"
    by (simp add: nth_Cons split: nat.splits)
  have ne: "?tasks \<noteq> []" by simp
  have r1: "pool_run ?tasks [1, 0, 1] (pool_init ?tasks (min (nat 2) (length ?tasks)))
            = Some \<lparr>results = [Some 10, Some 20, Some 30], taskIndex = 5,
                    workers = [Returned, Returned], claimed = [0, 1, 2], rejected = None\<rparr>"
    by code_simp
  have r2: "pool_run ?tasks [1, 0] (pool_init ?tasks (min (nat 2) (length ?tasks)))
            = Some \<lparr>results = [Some 10, Some 20, None], taskIndex = 4,
                    workers = [Returned, Awaiting 2], claimed = [0, 1, 2], rejected = None\<rparr>"
    by code_simp
  note T = runPromisePool_results_in_input_order[of 2 ?tasks "[]", THEN mp, OF conjI[OF c res]]
  note T1 = T[THEN conjunct1, rule_format, OF conjI[OF ne r1]]
  note T2 = T[THEN conjunct1, rule_format, OF conjI[OF ne r2]]
  have l1: "length [1::nat, 0, 1] = length ?tasks" by simp
  have l2: "length [1::nat, 0] < length ?tasks" by simp
  have a: "runPromisePool ?tasks 2 [1, 0, 1] = Some (Inr (map (\<lambda>t. Some (projr t)) ?tasks))"
    using T1[THEN conjunct2, THEN conjunct2, THEN conjunct2, THEN conjunct2, THEN conjunct2,
        THEN mp, OF l1] .
  have b: "runPromisePool ?tasks 2 [1, 0] = None"
    using T2[THEN conjunct2, THEN conjunct2, THEN conjunct2, THEN conjunct2, THEN conjunct1,
        THEN mp, OF l2, THEN conjunct1] .
  have e0: "([] :: (error + nat) list) = []" by simp
  have e: "runPromisePool ([] :: (error + nat) list) 2 [] = Some (Inr [])"
    using runPromisePool_results_in_input_order[of 2 "[] :: (error + nat) list" "[]",
        THEN mp, OF conjI[OF c], THEN conjunct2, THEN mp, OF _ e0]
    by simp
  show ?thesis using a b e by simp
qed


section \<open>Properties of the dependency resolver: cycle reporting\<close>

lemma join_two_nonempty: "2 \<le> length p \<Longrightarrow> sep \<noteq> [] \<Longrightarrow> join sep p \<noteq> []"
proof -
  assume a: "2 \<le> length p" "sep \<noteq> []"
  then obtain x y ys where "p = x # y # ys"
    by (cases p; cases "tl p") auto
  then show ?thesis using a(2) by simp
qed

lemma dfs_found_truthy: "dfs_found D r \<Longrightarrow> js_truthy r"
  using join_two_nonempty[of _ arrow]
  by (auto simp: dfs_found_def cycle_path_def js_truthy_def arrow_def)

lemma dep_chain_drop: "dep_chain D q \<Longrightarrow> dep_chain D (drop k q)"
proof -
  assume c: "dep_chain D q"
  have "drop k q ! Suc i \<in> set (D (drop k q ! i))" if "Suc i < length (drop k q)" for i
  proof -
    have "Suc (k + i) < length q" using that by simp
    then have "q ! Suc (k + i) \<in> set (D (q ! (k + i)))" using c by (simp add: dep_chain_def)
    then show ?thesis using that by simp
  qed
  then show ?thesis by (simp add: dep_chain_def)
qed

lemma dep_chain_snoc:
  assumes "dep_chain D q" and "q = [] \<or> x \<in> set (D (last q))"
  shows "dep_chain D (q @ [x])"
proof -
  have "(q @ [x]) ! Suc i \<in> set (D ((q @ [x]) ! i))" if "Suc i < length (q @ [x])" for i
  proof (cases "Suc i < length q")
    case True
    then show ?thesis using assms(1) by (simp add: dep_chain_def nth_append)
  next
    case False
    then have i: "Suc i = length q" using that by simp
    then have "q \<noteq> []" by auto
    then have "last q = q ! i" using i by (metis diff_Suc_1 last_conv_nth)
    then show ?thesis using assms(2) i \<open>q \<noteq> []\<close> by (simp add: nth_append)
  qed
  then show ?thesis by (simp add: dep_chain_def)
qed

lemma dep_chain_butlast: "dep_chain D (q @ [x]) \<Longrightarrow> dep_chain D q"
proof -
  assume c: "dep_chain D (q @ [x])"
  have "q ! Suc i \<in> set (D (q ! i))" if "Suc i < length q" for i
  proof -
    have "(q @ [x]) ! Suc i \<in> set (D ((q @ [x]) ! i))"
      using c that by (simp add: dep_chain_def)
    then show ?thesis using that by (simp add: nth_append)
  qed
  then show ?thesis by (simp add: dep_chain_def)
qed

lemma finished_closed:
  assumes cl: "\<forall>n \<in> B. set (D n) \<subseteq> B"
  shows "(a, b) \<in> {(a, b). b \<in> set (D a)}\<^sup>* \<Longrightarrow> a \<in> B \<Longrightarrow> b \<in> B"
proof (induction rule: rtrancl_induct)
  case base
  then show ?case .
next
  case (step y z)
  then have "y \<in> B" by simp
  then have "set (D y) \<subseteq> B" using cl by simp
  then show ?case using step(2) by auto
qed

lemma back_edge_cycle:
  assumes ok: "dfs_ok D st" and on: "node \<in> recursionStack st"
    and link: "path st = [] \<or> node \<in> set (D (last (path st)))"
  shows "dfs_found D (Some (join arrow (js_slice_from (path st) (indexOf (path st) node) @ [node])))"
proof -
  let ?q = "path st"
  let ?k = "length (takeWhile (\<lambda>y. y \<noteq> node) ?q)"
  have mem: "node \<in> set ?q" using ok on by (simp add: dfs_ok_def)
  have idx: "indexOf ?q node = int ?k" using mem by (simp add: indexOf_def)
  have sl: "js_slice_from ?q (indexOf ?q node) = drop ?k ?q"
    by (simp add: idx js_slice_from_def)
  have dw: "drop ?k ?q = dropWhile (\<lambda>y. y \<noteq> node) ?q" by (simp add: dropWhile_eq_drop)
  have ne: "dropWhile (\<lambda>y. y \<noteq> node) ?q \<noteq> []" using mem by simp
  have hd: "hd (dropWhile (\<lambda>y. y \<noteq> node) ?q) = node"
    using hd_dropWhile[OF ne] by simp
  obtain rest where d: "drop ?k ?q = node # rest"
    using ne hd dw by (cases "dropWhile (\<lambda>y. y \<noteq> node) ?q") auto
  let ?p = "drop ?k ?q @ [node]"
  have len: "2 \<le> length ?p" by (simp add: d)
  have hl: "hd ?p = last ?p" by (simp add: d)
  have k: "?k \<le> length ?q" by (simp add: length_takeWhile_le)
  have "dep_chain D (?q @ [node])"
    using ok link by (intro dep_chain_snoc) (simp_all add: dfs_ok_def)
  then have "dep_chain D (drop ?k (?q @ [node]))" by (rule dep_chain_drop)
  then have ch: "dep_chain D ?p" using k by simp
  have "cycle_path D ?p" using len hl ch by (simp add: cycle_path_def)
  then show ?thesis unfolding dfs_found_def sl by blast
qed

lemma enter_ok:
  assumes ok: "dfs_ok D st" and nv: "node \<notin> visited st"
    and link: "path st = [] \<or> node \<in> set (D (last (path st)))"
  shows "dfs_ok D (enter node st)"
proof -
  have st: "recursionStack st = set (path st)" "distinct (path st)" "set (path st) \<subseteq> visited st"
      "dep_chain D (path st)"
    using ok by (simp_all add: dfs_ok_def)
  have J: "\<forall>n \<in> finished st. set (D n) \<subseteq> finished st \<and> (n, n) \<notin> {(a, b). b \<in> set (D a)}\<^sup>+"
    using ok by (simp add: dfs_ok_def)
  have ns: "node \<notin> set (path st)" using nv st(3) by auto
  have f: "finished (enter node st) = finished st"
    using nv by (auto simp: finished_def enter_def)
  have a: "recursionStack (enter node st) = set (path (enter node st))"
    using st(1) by (simp add: enter_def)
  have b: "distinct (path (enter node st))" using st(2) ns by (simp add: enter_def)
  have c: "set (path (enter node st)) \<subseteq> visited (enter node st)"
    using st(3) by (auto simp: enter_def)
  have d: "dep_chain D (path (enter node st))"
    using dep_chain_snoc[OF st(4) link] by (simp add: enter_def)
  show ?thesis unfolding dfs_ok_def f using a b c d J by simp
qed

lemma leave_ok:
  assumes ok: "dfs_ok D st" and nv: "node \<notin> visited st"
    and bk: "dfs_back D (enter node st) st2"
    and deps: "set (D node) \<subseteq> finished st2"
  shows "dfs_back D st (leave node st2) \<and> node \<in> finished (leave node st2)"
proof -
  have st: "recursionStack st = set (path st)" "distinct (path st)" "set (path st) \<subseteq> visited st"
      "dep_chain D (path st)"
    using ok by (simp_all add: dfs_ok_def)
  have ns: "node \<notin> recursionStack st" using nv st(1,3) by auto
  have ok2: "dfs_ok D st2" and p2: "path st2 = path st @ [node]"
    and s2: "recursionStack st2 = insert node (recursionStack st)"
    and v2: "insert node (visited st) \<subseteq> visited st2"
    using bk by (simp_all add: dfs_back_def enter_def)
  have J2: "\<forall>n \<in> finished st2. set (D n) \<subseteq> finished st2 \<and> (n, n) \<notin> {(a, b). b \<in> set (D a)}\<^sup>+"
    using ok2 by (simp add: dfs_ok_def)
  let ?st3 = "leave node st2"
  have p3: "path ?st3 = path st" by (simp add: leave_def p2)
  have s3: "recursionStack ?st3 = recursionStack st" using ns by (simp add: leave_def s2)
  have v3: "visited ?st3 = visited st2" by (simp add: leave_def)
  have f3: "finished ?st3 = insert node (finished st2)"
    using v2 ns by (auto simp: finished_def s3 v3 s2)
  have nf2: "node \<notin> finished st2" by (simp add: finished_def s2)
  have cyc: "(node, node) \<notin> {(a, b). b \<in> set (D a)}\<^sup>+"
  proof
    assume "(node, node) \<in> {(a, b). b \<in> set (D a)}\<^sup>+"
    then obtain d where d: "(node, d) \<in> {(a, b). b \<in> set (D a)}"
        "(d, node) \<in> {(a, b). b \<in> set (D a)}\<^sup>*"
      by (meson tranclD)
    then have "d \<in> finished st2" using deps by auto
    moreover have "\<forall>n \<in> finished st2. set (D n) \<subseteq> finished st2" using J2 by simp
    ultimately have "node \<in> finished st2" using finished_closed[OF _ d(2)] by simp
    then show False using nf2 by simp
  qed
  have J3: "\<forall>n \<in> finished ?st3. set (D n) \<subseteq> finished ?st3 \<and> (n, n) \<notin> {(a, b). b \<in> set (D a)}\<^sup>+"
  proof
    fix n assume "n \<in> finished ?st3"
    then consider "n = node" | "n \<in> finished st2" using f3 by auto
    then show "set (D n) \<subseteq> finished ?st3 \<and> (n, n) \<notin> {(a, b). b \<in> set (D a)}\<^sup>+"
    proof cases
      case 1
      then show ?thesis using deps cyc f3 by auto
    next
      case 2
      then have "set (D n) \<subseteq> finished st2" "(n, n) \<notin> {(a, b). b \<in> set (D a)}\<^sup>+"
        using J2 by simp_all
      then show ?thesis using f3 by auto
    qed
  qed
  have ok3: "dfs_ok D ?st3"
    unfolding dfs_ok_def p3 s3 using st J3 v2 by (auto simp: v3)
  have "visited st \<subseteq> visited ?st3" using v2 by (auto simp: v3)
  then have "dfs_back D st ?st3" using ok3 p3 s3 by (simp add: dfs_back_def)
  then show ?thesis using f3 by simp
qed

lemma dfs_back_trans:
  "dfs_back D st st1 \<Longrightarrow> dfs_back D st1 st2 \<Longrightarrow> dfs_back D st st2"
  by (auto simp: dfs_back_def)

lemma dfs_back_finished: "dfs_back D st st' \<Longrightarrow> finished st \<subseteq> finished st'"
  by (auto simp: dfs_back_def finished_def)

lemma dfs_back_refl: "dfs_ok D st \<Longrightarrow> dfs_back D st st"
  by (simp add: dfs_back_def)

lemma dfs_correct:
  fixes m :: "(string \<times> 'p element) list"
  shows "dfs_ok (node_deps m) st \<Longrightarrow>
         path st = [] \<or> node \<in> set (node_deps m (last (path st))) \<Longrightarrow>
         (fst (dfs m node st) \<noteq> None \<longrightarrow> dfs_found (node_deps m) (fst (dfs m node st)))
         \<and> (fst (dfs m node st) = None \<longrightarrow>
              dfs_back (node_deps m) st (snd (dfs m node st))
              \<and> node \<in> finished (snd (dfs m node st)))"
    and "dfs_ok (node_deps m) st \<Longrightarrow> path st \<noteq> [] \<Longrightarrow>
         set ds \<subseteq> set (node_deps m (last (path st))) \<Longrightarrow>
         (fst (dfs_deps m ds st) \<noteq> None \<longrightarrow> dfs_found (node_deps m) (fst (dfs_deps m ds st)))
         \<and> (fst (dfs_deps m ds st) = None \<longrightarrow>
              dfs_back (node_deps m) st (snd (dfs_deps m ds st))
              \<and> set ds \<subseteq> finished (snd (dfs_deps m ds st)))"
proof (induction m node st and m ds st rule: dfs_dfs_deps.induct)
  case (1 m node st)
  let ?D = "node_deps m"
  note ok = "1.prems"(1) and link = "1.prems"(2)
  show ?case
  proof (cases "node \<in> recursionStack st")
    case True
    have "dfs m node st
        = (Some (join arrow (js_slice_from (path st) (indexOf (path st) node) @ [node])), st)"
      using True by (subst dfs.simps) simp
    then show ?thesis using back_edge_cycle[OF ok True link] by simp
  next
    case False
    show ?thesis
    proof (cases "node \<in> visited st")
      case True
      have "dfs m node st = (None, st)"
        using True False by (subst dfs.simps) simp
      moreover have "node \<in> finished st" using True False by (simp add: finished_def)
      ultimately show ?thesis using dfs_back_refl[OF ok] by simp
    next
      case nv: False
      let ?st1 = "enter node st"
      obtain r st2 where run: "dfs_deps m (?D node) ?st1 = (r, st2)"
        by (cases "dfs_deps m (?D node) ?st1")
      have ok1: "dfs_ok ?D ?st1" using enter_ok[OF ok nv link] .
      have p1: "path ?st1 \<noteq> []" by (simp add: enter_def)
      have l1: "set (?D node) \<subseteq> set (?D (last (path ?st1)))" by (simp add: enter_def)
      note IH = "1.IH"[OF False nv ok1 p1 l1, unfolded run fst_conv snd_conv]
      show ?thesis
      proof (cases r)
        case None
        have res: "dfs m node st = (None, leave node st2)"
          using False nv run None by (subst dfs.simps) simp
        have "dfs_back ?D ?st1 st2" "set (?D node) \<subseteq> finished st2"
          using IH None by simp_all
        then show ?thesis using leave_ok[OF ok nv] res by simp
      next
        case (Some c)
        have res: "dfs m node st = (Some c, st2)"
          using False nv run Some by (subst dfs.simps) simp
        then show ?thesis using IH Some by simp
      qed
    qed
  qed
next
  case (2 m st)
  then show ?case using dfs_back_refl by simp
next
  case (3 m dep ds st)
  let ?D = "node_deps m"
  note ok = "3.prems"(1) and pne = "3.prems"(2) and sub = "3.prems"(3)
  obtain cf st1 where run: "dfs m dep st = (cf, st1)" by (cases "dfs m dep st")
  have link: "path st = [] \<or> dep \<in> set (?D (last (path st)))" using sub by simp
  note IH1 = "3.IH"(1)[OF ok link, unfolded run fst_conv snd_conv]
  show ?case
  proof (cases "js_truthy cf")
    case True
    then obtain c where c: "cf = Some c" by (auto simp: js_truthy_def)
    have "dfs_deps m (dep # ds) st = (Some c, st1)" using run True c by simp
    then show ?thesis using IH1 c by simp
  next
    case False
    have cfN: "cf = None"
    proof (rule ccontr)
      assume "cf \<noteq> None"
      then have "dfs_found ?D cf" using IH1 by simp
      then show False using False dfs_found_truthy by blast
    qed
    then have b1: "dfs_back ?D st st1" and d1: "dep \<in> finished st1" using IH1 by simp_all
    have ok1: "dfs_ok ?D st1" and p1: "path st1 = path st" using b1 by (simp_all add: dfs_back_def)
    have pne1: "path st1 \<noteq> []" using pne p1 by simp
    have sub1: "set ds \<subseteq> set (?D (last (path st1)))" using sub p1 by simp
    note IH2 = "3.IH"(2)[OF run[symmetric] False ok1 pne1 sub1]
    have res: "dfs_deps m (dep # ds) st = dfs_deps m ds st1" using run False by simp
    show ?thesis
    proof (cases "fst (dfs_deps m ds st1)")
      case None
      then have b2: "dfs_back ?D st1 (snd (dfs_deps m ds st1))"
        and d2: "set ds \<subseteq> finished (snd (dfs_deps m ds st1))"
        using IH2 by simp_all
      have "dep \<in> finished (snd (dfs_deps m ds st1))"
        using d1 dfs_back_finished[OF b2] by auto
      then show ?thesis using None res d2 dfs_back_trans[OF b1 b2] by simp
    next
      case (Some c)
      then show ?thesis using IH2 res by simp
    qed
  qed
qed

lemma finished_no_cycle:
  "dfs_ok D st \<Longrightarrow> n \<in> finished st \<Longrightarrow> (n, n) \<notin> {(a, b). b \<in> set (D a)}\<^sup>+"
  by (simp add: dfs_ok_def)

lemma detect_loop_correct:
  fixes m :: "(string \<times> 'p element) list"
  shows "dfs_ok (node_deps m) st \<Longrightarrow> path st = [] \<Longrightarrow>
     (\<exists>p. detect_loop m ks st = join arrow p \<and> cycle_path (node_deps m) p)
     \<or> (\<forall>k \<in> set ks. (k, k) \<notin> {(a, b). b \<in> set (node_deps m a)}\<^sup>+)"
proof (induction ks arbitrary: st)
  case Nil
  then show ?case by simp
next
  case (Cons k ks)
  let ?D = "node_deps m"
  note ok = Cons.prems(1) and pe = Cons.prems(2)
  have stack: "recursionStack st = {}" using ok pe by (simp add: dfs_ok_def)
  show ?case
  proof (cases "k \<in> visited st")
    case True
    then have "k \<in> finished st" using stack by (simp add: finished_def)
    then have nk: "(k, k) \<notin> {(a, b). b \<in> set (?D a)}\<^sup>+"
      using finished_no_cycle[OF ok] by simp
    have "detect_loop m (k # ks) st = detect_loop m ks st" using True by simp
    then show ?thesis using Cons.IH[OF ok pe] nk by auto
  next
    case False
    obtain cycle st' where run: "dfs m k st = (cycle, st')" by (cases "dfs m k st")
    have link: "path st = [] \<or> k \<in> set (?D (last (path st)))" using pe by simp
    note C = dfs_correct(1)[OF ok link, unfolded run fst_conv snd_conv]
    show ?thesis
    proof (cases cycle)
      case None
      then have b: "dfs_back ?D st st'" and f: "k \<in> finished st'" using C by simp_all
      have ok': "dfs_ok ?D st'" and pe': "path st' = []" using b pe by (simp_all add: dfs_back_def)
      have nk: "(k, k) \<notin> {(a, b). b \<in> set (?D a)}\<^sup>+"
        using finished_no_cycle[OF ok' f] .
      have "detect_loop m (k # ks) st = detect_loop m ks st'"
        using False run None by (simp add: js_truthy_def)
      then show ?thesis using Cons.IH[OF ok' pe'] nk by auto
    next
      case (Some c)
      then have fnd: "dfs_found ?D (Some c)" using C by simp
      then have "js_truthy (Some c)" by (rule dfs_found_truthy)
      then have "detect_loop m (k # ks) st = c" using False run Some by simp
      then show ?thesis using fnd by (auto simp: dfs_found_def)
    qed
  qed
qed

lemma dfs_ok_initial: "dfs_ok D \<lparr>visited = {}, recursionStack = {}, path = []\<rparr>"
  by (simp add: dfs_ok_def dep_chain_def finished_def)

lemma detectCycle_finds_cycle:
  fixes r :: "'p resolver"
  assumes cyc: "\<not> acyclic {(a, b). b \<in> set (node_deps (elementMap r) a)}"
  shows "\<exists>p. detectCycle r = join arrow p \<and> cycle_path (node_deps (elementMap r)) p"
proof -
  let ?m = "elementMap r" and ?R = "{(a, b). b \<in> set (node_deps (elementMap r) a)}"
  from cyc obtain n where n: "(n, n) \<in> ?R\<^sup>+" by (auto simp: acyclic_def)
  then obtain d where "(n, d) \<in> ?R" by (meson tranclD)
  then have "node_deps ?m n \<noteq> []" by auto
  then have "map_of ?m n \<noteq> None" by (auto simp: node_deps_def split: option.splits)
  then have "n \<in> set (map fst ?m)" by (simp add: map_of_eq_None_iff)
  then have nb: "\<not> (\<forall>k \<in> set (map fst ?m). (k, k) \<notin> ?R\<^sup>+)" using n by blast
  let ?init = "\<lparr>visited = {}, recursionStack = {}, path = []\<rparr>"
  have "(\<exists>p. detect_loop ?m (map fst ?m) ?init = join arrow p \<and> cycle_path (node_deps ?m) p)
     \<or> (\<forall>k \<in> set (map fst ?m). (k, k) \<notin> ?R\<^sup>+)"
    by (rule detect_loop_correct[OF dfs_ok_initial]) simp
  with nb have "\<exists>p. detect_loop ?m (map fst ?m) ?init = join arrow p \<and> cycle_path (node_deps ?m) p"
    by blast
  then show ?thesis by (simp add: detectCycle_def)
qed

section \<open>Properties of the dependency resolver: construction\<close>

lemma update_fresh: "map_of al k = None \<Longrightarrow> AList.update k v al = al @ [(k, v)]"
  by (induction al) auto

lemma map_fst_update: "k \<in> fst ` set al \<Longrightarrow> map fst (AList.update k v al) = map fst al"
  by (induction al) auto

lemma buildElementMap_acc:
  "buildElementMap es m0 = Inr m \<Longrightarrow>
     m = m0 @ map (\<lambda>e. (name e, e)) es \<and> distinct (map name es)
     \<and> set (map name es) \<inter> fst ` set m0 = {}"
proof (induction es arbitrary: m0)
  case Nil
  then show ?case by simp
next
  case (Cons e es)
  from Cons.prems have fresh: "map_of m0 (name e) = None"
    and rest: "buildElementMap es (AList.update (name e) e m0) = Inr m"
    by (auto split: if_splits)
  have u: "AList.update (name e) e m0 = m0 @ [(name e, e)]" using fresh by (rule update_fresh)
  from Cons.IH[OF rest] have ih: "m = (m0 @ [(name e, e)]) @ map (\<lambda>e. (name e, e)) es"
      "distinct (map name es)" "set (map name es) \<inter> fst ` set (m0 @ [(name e, e)]) = {}"
    unfolding u by simp_all
  have "name e \<notin> fst ` set m0" using fresh by (simp add: map_of_eq_None_iff)
  then show ?case using ih by auto
qed

lemma buildElementMap_result:
  assumes "buildElementMap es [] = Inr m"
  shows "m = map (\<lambda>e. (name e, e)) es" and "distinct (map name es)"
  using buildElementMap_acc[OF assms] by simp_all

lemma map_of_elementMap:
  assumes "distinct (map name es)" and "e \<in> set es"
  shows "map_of (map (\<lambda>e. (name e, e)) es) (name e) = Some e"
proof -
  have "distinct (map fst (map (\<lambda>e. (name e, e)) es))" using assms(1) by (simp add: comp_def)
  moreover have "(name e, e) \<in> set (map (\<lambda>e. (name e, e)) es)" using assms(2) by auto
  ultimately show ?thesis by (rule map_of_is_SomeI)
qed

lemma validateDeps_ok:
  "validateDeps m n ds = Inr u \<Longrightarrow> \<forall>d \<in> set ds. d \<noteq> n \<and> map_of m d \<noteq> None"
  by (induction ds) (auto split: if_splits)

lemma validateDependencies_ok:
  "validateDependencies m es = Inr u \<Longrightarrow>
     \<forall>e \<in> set es. \<forall>d \<in> set (deps_of e). d \<noteq> name e \<and> map_of m d \<noteq> None"
proof (induction es)
  case Nil
  then show ?case by simp
next
  case (Cons e es)
  from Cons.prems obtain u' where a: "validateDeps m (name e) (deps_of e) = Inr u'"
    and b: "validateDependencies m es = Inr u"
    by (auto split: sum.splits)
  show ?case using validateDeps_ok[OF a] Cons.IH[OF b] by simp
qed

lemma graph_init_snoc:
  "graph_init (es @ [e]) =
     (AList.update (name e) [] (fst (graph_init es)), AList.update (name e) 0 (snd (graph_init es)))"
  by (simp add: graph_init_def split_beta)

lemma graph_init_result:
  "distinct (map name es) \<Longrightarrow>
     graph_init es = (map (\<lambda>e. (name e, [])) es, map (\<lambda>e. (name e, 0)) es)"
proof (induction es rule: rev_induct)
  case Nil
  then show ?case by (simp add: graph_init_def)
next
  case (snoc e es)
  then have ih: "graph_init es = (map (\<lambda>e. (name e, [])) es, map (\<lambda>e. (name e, 0)) es)"
    and fresh: "name e \<notin> set (map name es)"
    by simp_all
  have a: "map_of (map (\<lambda>e. (name e, [])) es) (name e) = None"
    using fresh by (simp add: map_of_eq_None_iff image_image)
  have b: "map_of (map (\<lambda>e. (name e, 0::int)) es) (name e) = None"
    using fresh by (simp add: map_of_eq_None_iff image_image)
  show ?case
    unfolding graph_init_snoc ih fst_conv snd_conv update_fresh[OF a] update_fresh[OF b]
    by simp
qed

lemma dep_edges_Cons:
  "dep_edges (e # es) = map (\<lambda>d. (d, name e)) (deps_of e) @ dep_edges es"
  by (simp add: dep_edges_def)

lemma graph_edges_fold:
  "graph_edges es g = foldl (\<lambda>g dn. add_edge (snd dn) g (fst dn)) g (dep_edges es)"
proof (induction es arbitrary: g)
  case Nil
  then show ?case by (simp add: graph_edges_def dep_edges_def)
next
  case (Cons e es)
  have "graph_edges (e # es) g = graph_edges es (foldl (add_edge (name e)) g (deps_of e))"
    by (simp add: graph_edges_def)
  then show ?case
    unfolding dep_edges_Cons foldl_append foldl_map using Cons.IH by simp
qed

lemma neighbors_of_init: "neighbors_of (map (\<lambda>e. (name e, [])) es) d = []"
proof (cases "map_of (map (\<lambda>e. (name e, []::string list)) es) d")
  case None
  then show ?thesis by (simp add: neighbors_of_def)
next
  case (Some s)
  then have "(d, s) \<in> set (map (\<lambda>e. (name e, [])) es)" by (rule map_of_SomeD)
  then have "s = []" by auto
  then show ?thesis using Some by (simp add: neighbors_of_def)
qed

lemma degree_init: "js_or0 (map_of (map (\<lambda>e. (name e, 0)) es) n) = 0"
proof (cases "map_of (map (\<lambda>e. (name e, 0::int)) es) n")
  case None
  then show ?thesis by (simp add: js_or0_def)
next
  case (Some v)
  then have "(n, v) \<in> set (map (\<lambda>e. (name e, 0)) es)" by (rule map_of_SomeD)
  then have "v = 0" by auto
  then show ?thesis using Some by (simp add: js_or0_def)
qed

lemma set_add_props: "distinct s \<Longrightarrow> distinct (set_add n s)" "set (set_add n s) = insert n (set s)"
  by (auto simp: set_add_def)

lemma edges_fold:
  assumes known: "\<forall>dn \<in> set edges. fst dn \<in> set (map name es) \<and> snd dn \<in> set (map name es)"
  shows "map fst (fst (foldl (\<lambda>g dn. add_edge (snd dn) g (fst dn))
                         (map (\<lambda>e. (name e, [])) es, map (\<lambda>e. (name e, 0)) es) edges)) = map name es
     \<and> map fst (snd (foldl (\<lambda>g dn. add_edge (snd dn) g (fst dn))
                         (map (\<lambda>e. (name e, [])) es, map (\<lambda>e. (name e, 0)) es) edges)) = map name es
     \<and> (\<forall>d. distinct (neighbors_of (fst (foldl (\<lambda>g dn. add_edge (snd dn) g (fst dn))
                         (map (\<lambda>e. (name e, [])) es, map (\<lambda>e. (name e, 0)) es) edges)) d)
            \<and> set (neighbors_of (fst (foldl (\<lambda>g dn. add_edge (snd dn) g (fst dn))
                         (map (\<lambda>e. (name e, [])) es, map (\<lambda>e. (name e, 0)) es) edges)) d)
                = {n. (d, n) \<in> set edges})
     \<and> (\<forall>n. js_or0 (map_of (snd (foldl (\<lambda>g dn. add_edge (snd dn) g (fst dn))
                         (map (\<lambda>e. (name e, [])) es, map (\<lambda>e. (name e, 0)) es) edges)) n)
            = int (length (filter (\<lambda>dn. snd dn = n) edges)))"
  using known
proof (induction edges rule: rev_induct)
  case Nil
  show ?case by (simp add: neighbors_of_init degree_init comp_def)
next
  case (snoc dn edges)
  let ?g = "foldl (\<lambda>g dn. add_edge (snd dn) g (fst dn))
              (map (\<lambda>e. (name e, [])) es, map (\<lambda>e. (name e, 0)) es) edges"
  obtain adj deg where g: "?g = (adj, deg)" by (cases ?g)
  obtain d n where dn: "dn = (d, n)" by (cases dn)
  have kn: "d \<in> set (map name es)" "n \<in> set (map name es)" using snoc.prems dn by simp_all
  have "\<forall>dn \<in> set edges. fst dn \<in> set (map name es) \<and> snd dn \<in> set (map name es)"
    using snoc.prems by simp
  from snoc.IH[OF this] have ih:
    "map fst adj = map name es" "map fst deg = map name es"
    "\<And>d. distinct (neighbors_of adj d)" "\<And>d. set (neighbors_of adj d) = {n. (d, n) \<in> set edges}"
    "\<And>n. js_or0 (map_of deg n) = int (length (filter (\<lambda>dn. snd dn = n) edges))"
    unfolding g by simp_all
  have dk: "d \<in> fst ` set adj" using kn(1) ih(1) by (metis list.set_map)
  have nk: "n \<in> fst ` set deg" using kn(2) ih(2) by (metis list.set_map)
  from dk obtain s where s: "map_of adj d = Some s"
    by (metis map_of_eq_None_iff not_None_eq)
  have ns: "neighbors_of adj d = s" using s by (simp add: neighbors_of_def)
  let ?adj' = "AList.update d (set_add n s) adj"
  let ?deg' = "AList.update n (js_or0 (map_of deg n) + 1) deg"
  have step: "foldl (\<lambda>g dn. add_edge (snd dn) g (fst dn))
              (map (\<lambda>e. (name e, [])) es, map (\<lambda>e. (name e, 0)) es) (edges @ [dn]) = (?adj', ?deg')"
    using g dn s by (simp add: add_edge_def)
  have a: "map fst ?adj' = map name es" using map_fst_update[OF dk] ih(1) by simp
  have b: "map fst ?deg' = map name es" using map_fst_update[OF nk] ih(2) by simp
  have nb: "neighbors_of ?adj' d' = (if d' = d then set_add n s else neighbors_of adj d')" for d'
    by (simp add: neighbors_of_def update_conv')
  have c: "distinct (neighbors_of ?adj' d') \<and> set (neighbors_of ?adj' d') = {n'. (d', n') \<in> set (edges @ [dn])}" for d'
  proof (cases "d' = d")
    case True
    have "distinct s" using ih(3)[of d] ns by simp
    moreover have "set s = {n'. (d, n') \<in> set edges}" using ih(4)[of d] ns by simp
    ultimately show ?thesis using True nb[of d'] dn by (auto simp: set_add_props)
  next
    case False
    then show ?thesis using nb[of d'] ih(3)[of d'] ih(4)[of d'] dn by auto
  qed
  have e: "js_or0 (map_of ?deg' n') = int (length (filter (\<lambda>dn. snd dn = n') (edges @ [dn])))" for n'
  proof (cases "n' = n")
    case True
    have "js_or0 (map_of ?deg' n) = js_or0 (map_of deg n) + 1"
      by (simp add: update_conv' js_or0_def)
    then show ?thesis using ih(5)[of n] dn True by simp
  next
    case False
    then have "js_or0 (map_of ?deg' n') = js_or0 (map_of deg n')"
      by (simp add: update_conv')
    then show ?thesis using ih(5)[of n'] dn False by simp
  qed
  show ?case unfolding step fst_conv snd_conv using a b c e by blast
qed

section \<open>Properties of the dependency resolver: the sort\<close>

lemma kahn_invD:
  assumes "kahn_inv D N deg queue order"
  shows "distinct (order @ queue)"
    and "set (order @ queue) \<subseteq> N"
    and "\<forall>n \<in> N. (n \<in> set (order @ queue)) = (js_or0 (map_of deg n) \<le> 0)"
    and "\<forall>n \<in> N. int (card (set (D n) - set order)) \<le> js_or0 (map_of deg n)"
    and "\<forall>n \<in> set order. set (D n) \<subseteq> set order \<and> (n, n) \<notin> {(a, b). b \<in> set (D a)}\<^sup>+"
proof -
  note u = assms[unfolded kahn_inv_def]
  show "distinct (order @ queue)" using u by (elim conjE)
  show "set (order @ queue) \<subseteq> N" using u by (elim conjE)
  show "\<forall>n \<in> N. (n \<in> set (order @ queue)) = (js_or0 (map_of deg n) \<le> 0)" using u by (elim conjE)
  show "\<forall>n \<in> N. int (card (set (D n) - set order)) \<le> js_or0 (map_of deg n)" using u by (elim conjE)
  show "\<forall>n \<in> set order. set (D n) \<subseteq> set order \<and> (n, n) \<notin> {(a, b). b \<in> set (D a)}\<^sup>+"
    using u by (elim conjE)
qed

lemma relax_degree:
  "js_or0 (map_of (fst (relax (deg, queue) n)) n')
     = js_or0 (map_of deg n') - (if n' = n then 1 else 0)"
  by (simp add: relax_def Let_def update_conv' js_or0_def)

lemma relax_queue:
  "snd (relax (deg, queue) n) = queue @ (if js_or0 (map_of deg n) = 1 then [n] else [])"
  by (simp add: relax_def Let_def)

lemma fold_relax:
  "distinct ns \<Longrightarrow>
     (\<forall>n'. js_or0 (map_of (fst (foldl relax (deg, queue) ns)) n')
            = js_or0 (map_of deg n') - (if n' \<in> set ns then 1 else 0))
     \<and> snd (foldl relax (deg, queue) ns) = queue @ filter (\<lambda>n. js_or0 (map_of deg n) = 1) ns"
proof (induction ns arbitrary: deg queue)
  case Nil
  then show ?case by simp
next
  case (Cons n ns)
  obtain deg1 queue1 where r: "relax (deg, queue) n = (deg1, queue1)" by (cases "relax (deg, queue) n")
  have d1: "js_or0 (map_of deg1 n') = js_or0 (map_of deg n') - (if n' = n then 1 else 0)" for n'
    using relax_degree[of deg queue n n'] r by simp
  have q1: "queue1 = queue @ (if js_or0 (map_of deg n) = 1 then [n] else [])"
    using relax_queue[of deg queue n] r by simp
  have dist: "distinct ns" and nn: "n \<notin> set ns" using Cons.prems by simp_all
  note ih = Cons.IH[OF dist, of deg1 queue1]
  have a: "js_or0 (map_of (fst (foldl relax (deg, queue) (n # ns))) n')
            = js_or0 (map_of deg n') - (if n' \<in> set (n # ns) then 1 else 0)" for n'
    using ih d1[of n'] nn r by (cases "n' = n") auto
  have f: "filter (\<lambda>x. js_or0 (map_of deg1 x) = 1) ns = filter (\<lambda>x. js_or0 (map_of deg x) = 1) ns"
    using nn d1 by (intro filter_cong) auto
  have b: "snd (foldl relax (deg, queue) (n # ns))
             = queue @ filter (\<lambda>x. js_or0 (map_of deg x) = 1) (n # ns)"
    using ih r q1 f by simp
  show ?case using a b by blast
qed

lemma closed_add_no_cycle:
  assumes cl: "\<forall>n \<in> B. set (D n) \<subseteq> B"
    and sub: "set (D x) \<subseteq> B" and out: "x \<notin> B"
  shows "(x, x) \<notin> {(a, b). b \<in> set (D a)}\<^sup>+"
proof
  assume "(x, x) \<in> {(a, b). b \<in> set (D a)}\<^sup>+"
  then obtain y where y: "(x, y) \<in> {(a, b). b \<in> set (D a)}" and r: "(y, x) \<in> {(a, b). b \<in> set (D a)}\<^sup>*"
    by (meson tranclD)
  have "y \<in> B" using y sub by auto
  then have "x \<in> B" using finished_closed[OF cl r] by simp
  then show False using out by simp
qed

lemma kahn_step:
  assumes inv: "kahn_inv D N deg (current # queue) order"
    and ns: "distinct ns" "set ns = {n \<in> N. current \<in> set (D n)}"
  shows "kahn_inv D N (fst (foldl relax (deg, queue) ns)) (snd (foldl relax (deg, queue) ns))
           (order @ [current])"
proof -
  define deg' where "deg' = fst (foldl relax (deg, queue) ns)"
  define new where "new = filter (\<lambda>n. js_or0 (map_of deg n) = 1) ns"
  define dg where "dg = (\<lambda>n. js_or0 (map_of deg n))"
  define dg' where "dg' = (\<lambda>n. js_or0 (map_of deg' n))"
  note fr = fold_relax[OF ns(1), of deg queue]
  have dgs: "dg' n' = dg n' - (if n' \<in> set ns then 1 else 0)" for n'
    using fr[THEN conjunct1, rule_format, of n'] by (simp add: dg_def dg'_def deg'_def)
  have q': "snd (foldl relax (deg, queue) ns) = queue @ new"
    using fr[THEN conjunct2] by (simp add: new_def)
  have new_mem: "(n \<in> set new) = (n \<in> set ns \<and> dg n = 1)" for n
    by (simp add: new_def dg_def)
  have new_dist: "distinct new" using ns(1) by (simp add: new_def)
  note I = kahn_invD[OF inv]
  have cur_in: "current \<in> set (order @ current # queue)" by simp
  have cur: "current \<in> N" "current \<notin> set order" "current \<notin> set queue"
  proof -
    show "current \<in> N" using I(2) cur_in by (rule subsetD)
    show "current \<notin> set order" using I(1) by simp
    show "current \<notin> set queue" using I(1) by simp
  qed
  have I3: "(n \<in> set (order @ current # queue)) = (dg n \<le> 0)" if "n \<in> N" for n
    using I(3)[rule_format, OF that] by (simp add: dg_def)
  have I4: "int (card (set (D n) - set order)) \<le> dg n" if "n \<in> N" for n
    using I(4)[rule_format, OF that] by (simp add: dg_def)
  have I5: "set (D n) \<subseteq> set order" "(n, n) \<notin> {(a, b). b \<in> set (D a)}\<^sup>+" if "n \<in> set order" for n
    using I(5)[rule_format, OF that] by simp_all
  have nsN: "n \<in> N" "current \<in> set (D n)" if "n \<in> set ns" for n
    using that ns(2) by simp_all
  have ns_iff: "(n \<in> set ns) = (current \<in> set (D n))" if "n \<in> N" for n
    using that ns(2) by simp
  have newfresh: "n \<notin> set (order @ current # queue)" if "n \<in> set new" for n
  proof -
    have a: "n \<in> set ns" "dg n = 1" using that new_mem by simp_all
    have "n \<in> N" using nsN(1)[OF a(1)] .
    from I3[OF this] a(2) show ?thesis by simp
  qed
  have P1: "distinct ((order @ [current]) @ queue @ new)"
  proof -
    have a: "distinct (order @ current # queue)" using I(1) .
    have b: "set new \<inter> set (order @ current # queue) = {}"
      using newfresh by blast
    from a b new_dist show ?thesis by auto
  qed
  have P2: "set ((order @ [current]) @ queue @ new) \<subseteq> N"
  proof -
    have a: "set (order @ current # queue) \<subseteq> N" using I(2) .
    have b: "set new \<subseteq> N" using new_mem nsN(1) by blast
    from a b show ?thesis by auto
  qed
  have mem: "(n \<in> set ((order @ [current]) @ queue @ new))
        = (n \<in> set (order @ current # queue) \<or> n \<in> set new)" for n
    by auto
  have P3: "(n \<in> set ((order @ [current]) @ queue @ new)) = (dg' n \<le> 0)" if n: "n \<in> N" for n
  proof (cases "n \<in> set ns")
    case True
    have "dg' n = dg n - 1" using dgs[of n] True by simp
    moreover have "(n \<in> set new) = (dg n = 1)" using new_mem True by simp
    ultimately show ?thesis unfolding mem I3[OF n] by linarith
  next
    case False
    have "dg' n = dg n" using dgs[of n] False by simp
    moreover have "n \<notin> set new" using new_mem False by simp
    ultimately show ?thesis unfolding mem I3[OF n] by simp
  qed
  have P4: "int (card (set (D n) - set (order @ [current]))) \<le> dg' n" if n: "n \<in> N" for n
  proof (cases "n \<in> set ns")
    case True
    have c: "current \<in> set (D n) - set order" using nsN(2)[OF True] cur(2) by simp
    have fin: "finite (set (D n) - set order)" by simp
    have "set (D n) - set (order @ [current]) = (set (D n) - set order) - {current}" by auto
    then have "card (set (D n) - set (order @ [current])) = card (set (D n) - set order) - 1"
      using c by (simp add: card_Diff_singleton)
    moreover have "1 \<le> card (set (D n) - set order)"
      using c fin by (metis One_nat_def Suc_leI card_gt_0_iff empty_iff)
    moreover have "dg' n = dg n - 1" using dgs[of n] True by simp
    ultimately show ?thesis using I4[OF n] by linarith
  next
    case False
    then have "current \<notin> set (D n)" using ns_iff[OF n] by simp
    then have "set (D n) - set (order @ [current]) = set (D n) - set order" by auto
    moreover have "dg' n = dg n" using dgs[of n] False by simp
    ultimately show ?thesis using I4[OF n] by simp
  qed
  have closed: "\<forall>n \<in> set order. set (D n) \<subseteq> set order" using I5(1) by blast
  have curdeps: "set (D current) \<subseteq> set order"
  proof -
    have "dg current \<le> 0" using I3[OF cur(1)] cur_in by simp
    then have "int (card (set (D current) - set order)) \<le> 0" using I4[OF cur(1)] by linarith
    then have "card (set (D current) - set order) = 0" by simp
    then have "set (D current) - set order = {}" by simp
    then show ?thesis by blast
  qed
  have curfree: "(current, current) \<notin> {(a, b). b \<in> set (D a)}\<^sup>+"
    using closed_add_no_cycle[OF closed curdeps cur(2)] .
  have P5: "set (D n) \<subseteq> set (order @ [current]) \<and> (n, n) \<notin> {(a, b). b \<in> set (D a)}\<^sup>+"
    if n: "n \<in> set (order @ [current])" for n
  proof (cases "n \<in> set order")
    case True
    have "set (D n) \<subseteq> set (order @ [current])" using I5(1)[OF True] by auto
    then show ?thesis using I5(2)[OF True] by simp
  next
    case False
    then have e: "n = current" using n by simp
    have "set (D current) \<subseteq> set (order @ [current])" using curdeps by auto
    then show ?thesis using e curfree by simp
  qed
  have "kahn_inv D N deg' (queue @ new) (order @ [current])"
    unfolding kahn_inv_def
  proof (intro conjI ballI)
    show "distinct ((order @ [current]) @ queue @ new)" by (rule P1)
    show "set ((order @ [current]) @ queue @ new) \<subseteq> N" by (rule P2)
    show "(n \<in> set ((order @ [current]) @ queue @ new)) = (js_or0 (map_of deg' n) \<le> 0)"
      if "n \<in> N" for n using P3[OF that] by (simp add: dg'_def)
    show "int (card (set (D n) - set (order @ [current]))) \<le> js_or0 (map_of deg' n)"
      if "n \<in> N" for n using P4[OF that] by (simp add: dg'_def)
    show "set (D n) \<subseteq> set (order @ [current])" if "n \<in> set (order @ [current])" for n
      using P5[OF that] by simp
    show "(n, n) \<notin> {(a, b). b \<in> set (D a)}\<^sup>+" if "n \<in> set (order @ [current])" for n
      using P5[OF that] by simp
  qed
  then show ?thesis unfolding deg'_def q' .
qed

lemma kahn_loop_inv:
  "(\<forall>d \<in> N. distinct (neighbors_of adj d) \<and> set (neighbors_of adj d) = {n \<in> N. d \<in> set (D n)})
   \<Longrightarrow> kahn_inv D N deg queue order \<Longrightarrow> result = map (map_of m) order \<Longrightarrow>
     \<exists>order'. fst (kahn_loop m adj deg queue result) = map (map_of m) order'
              \<and> kahn_inv D N (snd (kahn_loop m adj deg queue result)) [] order'"
proof (induction m adj deg queue result arbitrary: order rule: kahn_loop.induct)
  case (1 m adj deg result)
  then show ?case by auto
next
  case (2 m adj deg current queue result)
  obtain deg' queue' where f: "foldl relax (deg, queue) (neighbors_of adj current) = (deg', queue')"
    by (cases "foldl relax (deg, queue) (neighbors_of adj current)")
  have "current \<in> set (order @ current # queue)" by simp
  then have cur: "current \<in> N" using kahn_invD(2)[OF "2.prems"(2)] by (rule subsetD[rotated])
  note a = "2.prems"(1)[rule_format, OF cur]
  have inv': "kahn_inv D N deg' queue' (order @ [current])"
    using kahn_step[OF "2.prems"(2) a[THEN conjunct1] a[THEN conjunct2]] f by simp
  have res': "result @ [map_of m current] = map (map_of m) (order @ [current])"
    using "2.prems"(3) by simp
  from "2.IH"[OF f[symmetric] "2.prems"(1) inv' res']
  show ?case using f by simp
qed

lemma kahn_complete_acyclic:
  assumes inv: "kahn_inv D N deg [] order" and fin: "finite N" and len: "length order = card N"
    and out: "\<And>n. n \<notin> N \<Longrightarrow> D n = []"
  shows "acyclic {(a, b). b \<in> set (D a)}"
proof -
  note I = kahn_invD[OF inv]
  have d: "distinct order" and sub: "set order \<subseteq> N" using I(1,2) by simp_all
  have "card (set order) = card N" using d len by (simp add: distinct_card)
  then have all: "set order = N" using sub fin by (simp add: card_subset_eq)
  have "(x, x) \<notin> {(a, b). b \<in> set (D a)}\<^sup>+" for x
  proof (cases "x \<in> N")
    case True
    then show ?thesis using I(5) all by blast
  next
    case False
    show ?thesis
    proof
      assume "(x, x) \<in> {(a, b). b \<in> set (D a)}\<^sup>+"
      then obtain y where "(x, y) \<in> {(a, b). b \<in> set (D a)}" by (meson tranclD)
      then show False using out[OF False] by simp
    qed
  qed
  then show ?thesis by (simp add: acyclic_def)
qed

lemma resolver_built:
  assumes "new_DependencyResolver es = Inr r"
  shows "elements r = es"
    and "elementMap r = map (\<lambda>e. (name e, e)) es"
    and "distinct (map name es)"
    and "\<forall>e \<in> set es. \<forall>d \<in> set (deps_of e). d \<noteq> name e \<and> d \<in> set (map name es)"
    and "(adjacencyList r, inDegree r)
          = foldl (\<lambda>g dn. add_edge (snd dn) g (fst dn))
              (map (\<lambda>e. (name e, [])) es, map (\<lambda>e. (name e, 0)) es) (dep_edges es)"
proof -
  from assms obtain m u where bm: "buildElementMap es [] = Inr m"
    and vd: "validateDependencies m es = Inr u"
    and r: "r = \<lparr>elements = es, elementMap = m,
                 adjacencyList = fst (graph_edges es (graph_init es)),
                 inDegree = snd (graph_edges es (graph_init es))\<rparr>"
    by (auto simp: new_DependencyResolver_def split: sum.splits prod.splits)
  note b = buildElementMap_result[OF bm]
  show "elements r = es" by (simp add: r)
  show "elementMap r = map (\<lambda>e. (name e, e)) es" using b(1) by (simp add: r)
  show d: "distinct (map name es)" by (rule b(2))
  have keys: "fst ` set m = set (map name es)" unfolding b(1) by (simp add: image_image)
  have "map_of m x \<noteq> None \<Longrightarrow> x \<in> set (map name es)" for x
    using keys by (metis map_of_eq_None_iff)
  then show "\<forall>e \<in> set es. \<forall>d \<in> set (deps_of e). d \<noteq> name e \<and> d \<in> set (map name es)"
    using validateDependencies_ok[OF vd] by blast
  show "(adjacencyList r, inDegree r)
          = foldl (\<lambda>g dn. add_edge (snd dn) g (fst dn))
              (map (\<lambda>e. (name e, [])) es, map (\<lambda>e. (name e, 0)) es) (dep_edges es)"
    by (simp add: r graph_edges_fold graph_init_result[OF d])
qed

lemma dep_edges_iff:
  "(d, n) \<in> set (dep_edges es) \<longleftrightarrow> (\<exists>e \<in> set es. name e = n \<and> d \<in> set (deps_of e))"
  by (auto simp: dep_edges_def)

lemma node_deps_iff:
  assumes d: "distinct (map name es)"
  shows "d' \<in> set (node_deps (map (\<lambda>e. (name e, e)) es) n) \<longleftrightarrow> (d', n) \<in> set (dep_edges es)"
proof (cases "\<exists>e \<in> set es. name e = n")
  case True
  then obtain e where e: "e \<in> set es" "name e = n" by auto
  have m: "map_of (map (\<lambda>e. (name e, e)) es) n = Some e"
    using map_of_elementMap[OF d e(1)] e(2) by simp
  have nd: "node_deps (map (\<lambda>e. (name e, e)) es) n = deps_of e"
    by (simp add: node_deps_def m)
  have inj: "inj_on name (set es)" using d by (simp add: distinct_map)
  have uniq: "e' = e" if "e' \<in> set es" "name e' = n" for e'
    using inj that e by (simp add: inj_on_def)
  show ?thesis
  proof
    assume "d' \<in> set (node_deps (map (\<lambda>e. (name e, e)) es) n)"
    then have "d' \<in> set (deps_of e)" by (simp add: nd)
    then show "(d', n) \<in> set (dep_edges es)" unfolding dep_edges_iff using e by blast
  next
    assume "(d', n) \<in> set (dep_edges es)"
    then obtain e' where e': "e' \<in> set es" "name e' = n" "d' \<in> set (deps_of e')"
      unfolding dep_edges_iff by blast
    have "e' = e" using uniq[OF e'(1,2)] .
    then show "d' \<in> set (node_deps (map (\<lambda>e. (name e, e)) es) n)" using e'(3) by (simp add: nd)
  qed
next
  case False
  then have "n \<notin> fst ` set (map (\<lambda>e. (name e, e)) es)" by (auto simp: image_image)
  then have "map_of (map (\<lambda>e. (name e, e)) es) n = None" by (simp add: map_of_eq_None_iff)
  then have nd: "node_deps (map (\<lambda>e. (name e, e)) es) n = []" by (simp add: node_deps_def)
  have "(d', n) \<notin> set (dep_edges es)" unfolding dep_edges_iff using False by blast
  then show ?thesis by (simp add: nd)
qed

lemma resolver_graph:
  assumes c: "new_DependencyResolver es = Inr r"
  shows "map fst (inDegree r) = map name es"
    and "distinct (neighbors_of (adjacencyList r) d)"
    and "set (neighbors_of (adjacencyList r) d) = {n. (d, n) \<in> set (dep_edges es)}"
    and "js_or0 (map_of (inDegree r) n) = int (length (filter (\<lambda>dn. snd dn = n) (dep_edges es)))"
proof -
  note b = resolver_built[OF c]
  have known: "\<forall>dn \<in> set (dep_edges es). fst dn \<in> set (map name es) \<and> snd dn \<in> set (map name es)"
  proof
    fix dn assume "dn \<in> set (dep_edges es)"
    then have "(fst dn, snd dn) \<in> set (dep_edges es)" by simp
    then obtain e where e: "e \<in> set es" "name e = snd dn" "fst dn \<in> set (deps_of e)"
      unfolding dep_edges_iff by blast
    have "fst dn \<in> set (map name es)" using b(4) e(1,3) by blast
    moreover have "snd dn \<in> set (map name es)" using e(1,2) by force
    ultimately show "fst dn \<in> set (map name es) \<and> snd dn \<in> set (map name es)" by simp
  qed
  note E = edges_fold[OF known, folded b(5), unfolded fst_conv snd_conv]
  show "map fst (inDegree r) = map name es" using E by blast
  show "distinct (neighbors_of (adjacencyList r) d)" using E by blast
  show "set (neighbors_of (adjacencyList r) d) = {n. (d, n) \<in> set (dep_edges es)}" using E by blast
  show "js_or0 (map_of (inDegree r) n) = int (length (filter (\<lambda>dn. snd dn = n) (dep_edges es)))"
    using E by blast
qed

lemma kahn_inv_initial:
  assumes c: "new_DependencyResolver es = Inr r"
  shows "kahn_inv (node_deps (elementMap r)) (set (map name es)) (inDegree r)
           (map fst (filter (\<lambda>kv. snd kv = 0) (inDegree r))) []"
proof -
  let ?D = "node_deps (elementMap r)" and ?N = "set (map name es)" and ?deg = "inDegree r"
  let ?q = "map fst (filter (\<lambda>kv. snd kv = 0) ?deg)"
  note b = resolver_built[OF c]
  note g = resolver_graph[OF c]
  have dk: "distinct (map fst ?deg)" using g(1) b(3) by simp
  have P1: "distinct ([] @ ?q)" using dk by (simp add: distinct_map_filter)
  have P2: "set ([] @ ?q) \<subseteq> ?N"
  proof -
    have "set ?q \<subseteq> set (map fst ?deg)" by auto
    then show ?thesis using g(1) by simp
  qed
  have nonneg: "0 \<le> js_or0 (map_of ?deg n)" for n using g(4)[of n] by simp
  have P3: "(n \<in> set ([] @ ?q)) = (js_or0 (map_of ?deg n) \<le> 0)" if n: "n \<in> ?N" for n
  proof -
    have "n \<in> fst ` set ?deg" using n g(1) by (metis list.set_map)
    then obtain v where v: "map_of ?deg n = Some v"
      by (metis map_of_eq_None_iff not_None_eq)
    have mem: "(n, v') \<in> set ?deg \<longleftrightarrow> v' = v" for v'
      using v dk by (metis map_of_eq_Some_iff option.inject)
    have "(n \<in> set ?q) = ((n, 0) \<in> set ?deg)" by force
    then have "(n \<in> set ?q) = (v = 0)" using mem[of 0] by auto
    moreover have "js_or0 (map_of ?deg n) = v" using v by (simp add: js_or0_def)
    ultimately show ?thesis using nonneg[of n] by auto
  qed
  have P4: "int (card (set (?D n) - set [])) \<le> js_or0 (map_of ?deg n)" for n
  proof -
    have "set (?D n) = fst ` set (filter (\<lambda>dn. snd dn = n) (dep_edges es))"
      using node_deps_iff[OF b(3), of _ n] unfolding b(2) by force
    then have "card (set (?D n)) \<le> card (set (filter (\<lambda>dn. snd dn = n) (dep_edges es)))"
      by (simp add: card_image_le)
    also have "\<dots> \<le> length (filter (\<lambda>dn. snd dn = n) (dep_edges es))" by (rule card_length)
    finally show ?thesis using g(4)[of n] by simp
  qed
  show ?thesis
    unfolding kahn_inv_def
  proof (intro conjI ballI)
    show "distinct ([] @ ?q)" by (rule P1)
    show "set ([] @ ?q) \<subseteq> ?N" by (rule P2)
    show "(n \<in> set ([] @ ?q)) = (js_or0 (map_of ?deg n) \<le> 0)" if "n \<in> ?N" for n
      by (rule P3[OF that])
    show "int (card (set (?D n) - set [])) \<le> js_or0 (map_of ?deg n)" for n by (rule P4)
    show "set (?D n) \<subseteq> set []" if "n \<in> set []" for n using that by simp
    show "(n, n) \<notin> {(a, b). b \<in> set (?D a)}\<^sup>+" if "n \<in> set []" for n using that by simp
  qed
qed

lemma edges_converse:
  assumes c: "new_DependencyResolver es = Inr r"
  shows "set (dep_edges es) = {(a, b). b \<in> set (node_deps (elementMap r) a)}\<inverse>"
proof -
  note b = resolver_built[OF c]
  show ?thesis using node_deps_iff[OF b(3)] unfolding b(2) by auto
qed

lemma sort_complete_acyclic:
  assumes c: "new_DependencyResolver es = Inr r"
    and len: "length (fst (topologicalSort r)) = length es"
  shows "acyclic (set (dep_edges es))"
proof -
  let ?D = "node_deps (elementMap r)" and ?N = "set (map name es)"
  note b = resolver_built[OF c]
  note g = resolver_graph[OF c]
  have adj: "\<forall>d \<in> ?N. distinct (neighbors_of (adjacencyList r) d)
        \<and> set (neighbors_of (adjacencyList r) d) = {n \<in> ?N. d \<in> set (?D n)}"
  proof
    fix d assume "d \<in> ?N"
    have "set (neighbors_of (adjacencyList r) d) = {n \<in> ?N. d \<in> set (?D n)}"
    proof -
      have a: "set (neighbors_of (adjacencyList r) d) = {n. d \<in> set (?D n)}"
        using g(3)[of d] node_deps_iff[OF b(3), of d] unfolding b(2) by simp
      have "n \<in> ?N" if "d \<in> set (?D n)" for n
      proof -
        have "(d, n) \<in> set (dep_edges es)" using that node_deps_iff[OF b(3), of d n] unfolding b(2) by simp
        then show ?thesis unfolding dep_edges_iff by force
      qed
      then show ?thesis using a by blast
    qed
    then show "distinct (neighbors_of (adjacencyList r) d)
        \<and> set (neighbors_of (adjacencyList r) d) = {n \<in> ?N. d \<in> set (?D n)}"
      using g(2)[of d] by simp
  qed
  have "[] = map (map_of (elementMap r)) []" by simp
  from kahn_loop_inv[OF adj kahn_inv_initial[OF c] this]
  obtain order where o: "fst (topologicalSort r) = map (map_of (elementMap r)) order"
    and inv: "kahn_inv ?D ?N (snd (topologicalSort r)) [] order"
    unfolding topologicalSort_def by blast
  have "card ?N = length (map name es)" using b(3) by (rule distinct_card)
  moreover have "length order = length es" using o len by (metis length_map)
  ultimately have "length order = card ?N" by simp
  moreover have "?D n = []" if "n \<notin> ?N" for n
  proof -
    have "n \<notin> fst ` set (elementMap r)" using that unfolding b(2) by (simp add: image_image)
    then have "map_of (elementMap r) n = None" by (simp add: map_of_eq_None_iff)
    then show ?thesis by (simp add: node_deps_def)
  qed
  ultimately have "acyclic {(a, b). b \<in> set (?D a)}"
    using kahn_complete_acyclic[OF inv] by simp
  then show ?thesis unfolding edges_converse[OF c] by simp
qed

text \<open>
  Claim C2, as amended. When the elements pass the validation of the constructor and
  their dependency graph has a cycle, \<open>resolveExecutionOrder\<close> fails with the
  \<open>DependencyError\<close> whose message is \<open>Circular dependency detected:\<close> followed by a path
  of names joined by arrows. The path has at least two names, its first name is its last,
  and every name in it declares the next one as a dependency: each consecutive pair
  \<open>(a, b)\<close> is the edge \<open>b \<rightarrow> a\<close> of the graph, read from the dependent to its dependency.
\<close>

theorem cycle_reported_along_dependencies:
  "new_DependencyResolver es = Inr r \<and> \<not> acyclic (set (dep_edges es)) \<longrightarrow>
     (\<exists>p. fst (resolveExecutionOrder r)
            = Inl (DependencyError (''Circular dependency detected: '' @ join arrow p))
          \<and> resolve es = Inl (DependencyError (''Circular dependency detected: '' @ join arrow p))
          \<and> 2 \<le> length p \<and> hd p = last p
          \<and> (\<forall>i. Suc i < length p \<longrightarrow> (p ! Suc i, p ! i) \<in> set (dep_edges es)))"
proof
  assume a: "new_DependencyResolver es = Inr r \<and> \<not> acyclic (set (dep_edges es))"
  then have c: "new_DependencyResolver es = Inr r" and cyc: "\<not> acyclic (set (dep_edges es))"
    by simp_all
  note b = resolver_built[OF c]
  have short: "length (fst (topologicalSort r)) \<noteq> length (elements r)"
    using sort_complete_acyclic[OF c] cyc b(1) by auto
  have fails: "fst (resolveExecutionOrder r)
      = Inl (DependencyError (''Circular dependency detected: '' @ detectCycle r))"
    using short by (cases "topologicalSort r") (simp add: resolveExecutionOrder_def)
  have "\<not> acyclic {(a, b). b \<in> set (node_deps (elementMap r) a)}"
    using cyc unfolding edges_converse[OF c] by simp
  from detectCycle_finds_cycle[OF this] obtain p where
    p: "detectCycle r = join arrow p" and cp: "cycle_path (node_deps (elementMap r)) p"
    by blast
  have edge: "(p ! Suc i, p ! i) \<in> set (dep_edges es)" if "Suc i < length p" for i
  proof -
    have "p ! Suc i \<in> set (node_deps (elementMap r) (p ! i))"
      using cp that by (simp add: cycle_path_def dep_chain_def)
    then show ?thesis using node_deps_iff[OF b(3)] unfolding b(2) by simp
  qed
  have "fst (resolveExecutionOrder r)
            = Inl (DependencyError (''Circular dependency detected: '' @ join arrow p))"
    using fails p by simp
  moreover have "resolve es = fst (resolveExecutionOrder r)" using c by (simp add: resolve_def)
  moreover have "2 \<le> length p" "hd p = last p" using cp by (simp_all add: cycle_path_def)
  ultimately show "\<exists>p. fst (resolveExecutionOrder r)
            = Inl (DependencyError (''Circular dependency detected: '' @ join arrow p))
          \<and> resolve es = Inl (DependencyError (''Circular dependency detected: '' @ join arrow p))
          \<and> 2 \<le> length p \<and> hd p = last p
          \<and> (\<forall>i. Suc i < length p \<longrightarrow> (p ! Suc i, p ! i) \<in> set (dep_edges es))"
    using edge by auto
qed

theorem cycle_reported_along_dependencies_witness:
  "new_DependencyResolver
     [\<lparr>name = ''A'', metadata = Some \<lparr>version = None, dependencies = Some [''B'']\<rparr>, pipeline = ()\<rparr>,
      \<lparr>name = ''B'', metadata = Some \<lparr>version = None, dependencies = Some [''C'']\<rparr>, pipeline = ()\<rparr>,
      \<lparr>name = ''C'', metadata = Some \<lparr>version = None, dependencies = Some [''A'']\<rparr>, pipeline = ()\<rparr>]
    = Inr \<lparr>elements =
        [\<lparr>name = ''A'', metadata = Some \<lparr>version = None, dependencies = Some [''B'']\<rparr>, pipeline = ()\<rparr>,
         \<lparr>name = ''B'', metadata = Some \<lparr>version = None, dependencies = Some [''C'']\<rparr>, pipeline = ()\<rparr>,
         \<lparr>name = ''C'', metadata = Some \<lparr>version = None, dependencies = Some [''A'']\<rparr>, pipeline = ()\<rparr>],
      elementMap =
        [(''A'', \<lparr>name = ''A'', metadata = Some \<lparr>version = None, dependencies = Some [''B'']\<rparr>, pipeline = ()\<rparr>),
         (''B'', \<lparr>name = ''B'', metadata = Some \<lparr>version = None, dependencies = Some [''C'']\<rparr>, pipeline = ()\<rparr>),
         (''C'', \<lparr>name = ''C'', metadata = Some \<lparr>version = None, dependencies = Some [''A'']\<rparr>, pipeline = ()\<rparr>)],
      adjacencyList = [(''A'', [''C'']), (''B'', [''A'']), (''C'', [''B''])],
      inDegree = [(''A'', 1), (''B'', 1), (''C'', 1)]\<rparr>
   \<and> \<not> acyclic (set (dep_edges
     [\<lparr>name = ''A'', metadata = Some \<lparr>version = None, dependencies = Some [''B'']\<rparr>, pipeline = ()\<rparr>,
      \<lparr>name = ''B'', metadata = Some \<lparr>version = None, dependencies = Some [''C'']\<rparr>, pipeline = ()\<rparr>,
      \<lparr>name = ''C'', metadata = Some \<lparr>version = None, dependencies = Some [''A'']\<rparr>, pipeline = ()\<rparr>]))
   \<and> (\<exists>p. fst (resolveExecutionOrder \<lparr>elements =
        [\<lparr>name = ''A'', metadata = Some \<lparr>version = None, dependencies = Some [''B'']\<rparr>, pipeline = ()\<rparr>,
         \<lparr>name = ''B'', metadata = Some \<lparr>version = None, dependencies = Some [''C'']\<rparr>, pipeline = ()\<rparr>,
         \<lparr>name = ''C'', metadata = Some \<lparr>version = None, dependencies = Some [''A'']\<rparr>, pipeline = ()\<rparr>],
      elementMap =
        [(''A'', \<lparr>name = ''A'', metadata = Some \<lparr>version = None, dependencies = Some [''B'']\<rparr>, pipeline = ()\<rparr>),
         (''B'', \<lparr>name = ''B'', metadata = Some \<lparr>version = None, dependencies = Some [''C'']\<rparr>, pipeline = ()\<rparr>),
         (''C'', \<lparr>name = ''C'', metadata = Some \<lparr>version = None, dependencies = Some [''A'']\<rparr>, pipeline = ()\<rparr>)],
      adjacencyList = [(''A'', [''C'']), (''B'', [''A'']), (''C'', [''B''])],
      inDegree = [(''A'', 1), (''B'', 1), (''C'', 1)]\<rparr>)
            = Inl (DependencyError (''Circular dependency detected: '' @ join arrow p))
          \<and> resolve
     [\<lparr>name = ''A'', metadata = Some \<lparr>version = None, dependencies = Some [''B'']\<rparr>, pipeline = ()\<rparr>,
      \<lparr>name = ''B'', metadata = Some \<lparr>version = None, dependencies = Some [''C'']\<rparr>, pipeline = ()\<rparr>,
      \<lparr>name = ''C'', metadata = Some \<lparr>version = None, dependencies = Some [''A'']\<rparr>, pipeline = ()\<rparr>]
            = Inl (DependencyError (''Circular dependency detected: '' @ join arrow p))
          \<and> 2 \<le> length p \<and> hd p = last p
          \<and> (\<forall>i. Suc i < length p \<longrightarrow> (p ! Suc i, p ! i) \<in> set (dep_edges
     [\<lparr>name = ''A'', metadata = Some \<lparr>version = None, dependencies = Some [''B'']\<rparr>, pipeline = ()\<rparr>,
      \<lparr>name = ''B'', metadata = Some \<lparr>version = None, dependencies = Some [''C'']\<rparr>, pipeline = ()\<rparr>,
      \<lparr>name = ''C'', metadata = Some \<lparr>version = None, dependencies = Some [''A'']\<rparr>, pipeline = ()\<rparr>])))"
proof -
  let ?es = "[\<lparr>name = ''A'', metadata = Some \<lparr>version = None, dependencies = Some [''B'']\<rparr>, pipeline = ()\<rparr>,
      \<lparr>name = ''B'', metadata = Some \<lparr>version = None, dependencies = Some [''C'']\<rparr>, pipeline = ()\<rparr>,
      \<lparr>name = ''C'', metadata = Some \<lparr>version = None, dependencies = Some [''A'']\<rparr>, pipeline = ()\<rparr>]"
  let ?r = "\<lparr>elements =
        [\<lparr>name = ''A'', metadata = Some \<lparr>version = None, dependencies = Some [''B'']\<rparr>, pipeline = ()\<rparr>,
         \<lparr>name = ''B'', metadata = Some \<lparr>version = None, dependencies = Some [''C'']\<rparr>, pipeline = ()\<rparr>,
         \<lparr>name = ''C'', metadata = Some \<lparr>version = None, dependencies = Some [''A'']\<rparr>, pipeline = ()\<rparr>],
      elementMap =
        [(''A'', \<lparr>name = ''A'', metadata = Some \<lparr>version = None, dependencies = Some [''B'']\<rparr>, pipeline = ()\<rparr>),
         (''B'', \<lparr>name = ''B'', metadata = Some \<lparr>version = None, dependencies = Some [''C'']\<rparr>, pipeline = ()\<rparr>),
         (''C'', \<lparr>name = ''C'', metadata = Some \<lparr>version = None, dependencies = Some [''A'']\<rparr>, pipeline = ()\<rparr>)],
      adjacencyList = [(''A'', [''C'']), (''B'', [''A'']), (''C'', [''B''])],
      inDegree = [(''A'', 1), (''B'', 1), (''C'', 1)]\<rparr>"
  have c: "new_DependencyResolver ?es = Inr ?r" by code_simp
  have e: "dep_edges ?es = [(''B'', ''A''), (''C'', ''B''), (''A'', ''C'')]" by code_simp
  have "(''A'', ''C'') \<in> set (dep_edges ?es)" "(''C'', ''B'') \<in> set (dep_edges ?es)"
      "(''B'', ''A'') \<in> set (dep_edges ?es)"
    unfolding e by simp_all
  then have "(''A'', ''A'') \<in> (set (dep_edges ?es))\<^sup>+"
    by (meson trancl.r_into_trancl trancl_trans)
  then have h: "\<not> acyclic (set (dep_edges ?es))" unfolding acyclic_def by blast
  from cycle_reported_along_dependencies[of ?es ?r] c h
  have "\<exists>p. fst (resolveExecutionOrder ?r)
            = Inl (DependencyError (''Circular dependency detected: '' @ join arrow p))
          \<and> resolve ?es = Inl (DependencyError (''Circular dependency detected: '' @ join arrow p))
          \<and> 2 \<le> length p \<and> hd p = last p
          \<and> (\<forall>i. Suc i < length p \<longrightarrow> (p ! Suc i, p ! i) \<in> set (dep_edges ?es))"
    by (rule mp[OF _ conjI])
  with c h show ?thesis by (intro conjI)
qed

text \<open>
  Claim C2 as stated does not hold: the arrows of the reported path do not run along the
  edges \<open>dep \<rightarrow> dependent\<close>. When \<open>A\<close> depends on \<open>B\<close>, \<open>B\<close> on \<open>C\<close> and \<open>C\<close> on
  \<open>A\<close>, the edges are \<open>B \<rightarrow> A\<close>, \<open>C \<rightarrow> B\<close> and \<open>A \<rightarrow> C\<close>; the path reported is
  \<open>A \<rightarrow> B \<rightarrow> C \<rightarrow> A\<close>, and its first pair \<open>(A, B)\<close> is not an edge.
\<close>

theorem reported_cycle_runs_against_the_edges:
  "resolve
     [\<lparr>name = ''A'', metadata = Some \<lparr>version = None, dependencies = Some [''B'']\<rparr>, pipeline = ()\<rparr>,
      \<lparr>name = ''B'', metadata = Some \<lparr>version = None, dependencies = Some [''C'']\<rparr>, pipeline = ()\<rparr>,
      \<lparr>name = ''C'', metadata = Some \<lparr>version = None, dependencies = Some [''A'']\<rparr>, pipeline = ()\<rparr>]
    = Inl (DependencyError
            (''Circular dependency detected: '' @ join arrow [''A'', ''B'', ''C'', ''A'']))
   \<and> dep_edges
     [\<lparr>name = ''A'', metadata = Some \<lparr>version = None, dependencies = Some [''B'']\<rparr>, pipeline = ()\<rparr>,
      \<lparr>name = ''B'', metadata = Some \<lparr>version = None, dependencies = Some [''C'']\<rparr>, pipeline = ()\<rparr>,
      \<lparr>name = ''C'', metadata = Some \<lparr>version = None, dependencies = Some [''A'']\<rparr>, pipeline = ()\<rparr>]
     = [(''B'', ''A''), (''C'', ''B''), (''A'', ''C'')]
   \<and> (''A'', ''B'') \<notin> set (dep_edges
     [\<lparr>name = ''A'', metadata = Some \<lparr>version = None, dependencies = Some [''B'']\<rparr>, pipeline = ()\<rparr>,
      \<lparr>name = ''B'', metadata = Some \<lparr>version = None, dependencies = Some [''C'']\<rparr>, pipeline = ()\<rparr>,
      \<lparr>name = ''C'', metadata = Some \<lparr>version = None, dependencies = Some [''A'']\<rparr>, pipeline = ()\<rparr>])"
  by code_simp

text \<open>
  Claim C1 fails on the code when a dependency is declared twice. \<open>B\<close> lists \<open>A\<close> twice
  (the schema asks for an array of strings and does not ask for distinct items): the edge
  set is the single edge \<open>A \<rightarrow> B\<close>, which is acyclic, and the constructor accepts the
  elements. \<open>buildGraph\<close> counts \<open>B\<close>'s in-degree once per entry, 2, while the neighbour
  set of \<open>A\<close> holds \<open>B\<close> once, so the counter of \<open>B\<close> stops at 1, \<open>B\<close> is never queued,
  and \<open>resolveExecutionOrder\<close> reports a cycle that \<open>detectCycle\<close> cannot find.
\<close>

theorem repeated_dependency_reported_as_cycle:
  "new_DependencyResolver
     [\<lparr>name = ''A'', metadata = Some \<lparr>version = None, dependencies = Some []\<rparr>, pipeline = ()\<rparr>,
      \<lparr>name = ''B'', metadata = Some \<lparr>version = None, dependencies = Some [''A'', ''A'']\<rparr>, pipeline = ()\<rparr>]
    = Inr \<lparr>elements =
        [\<lparr>name = ''A'', metadata = Some \<lparr>version = None, dependencies = Some []\<rparr>, pipeline = ()\<rparr>,
         \<lparr>name = ''B'', metadata = Some \<lparr>version = None, dependencies = Some [''A'', ''A'']\<rparr>, pipeline = ()\<rparr>],
      elementMap =
        [(''A'', \<lparr>name = ''A'', metadata = Some \<lparr>version = None, dependencies = Some []\<rparr>, pipeline = ()\<rparr>),
         (''B'', \<lparr>name = ''B'', metadata = Some \<lparr>version = None, dependencies = Some [''A'', ''A'']\<rparr>, pipeline = ()\<rparr>)],
      adjacencyList = [(''A'', [''B'']), (''B'', [])],
      inDegree = [(''A'', 0), (''B'', 2)]\<rparr>
   \<and> dep_edges
     [\<lparr>name = ''A'', metadata = Some \<lparr>version = None, dependencies = Some []\<rparr>, pipeline = ()\<rparr>,
      \<lparr>name = ''B'', metadata = Some \<lparr>version = None, dependencies = Some [''A'', ''A'']\<rparr>, pipeline = ()\<rparr>]
     = [(''A'', ''B''), (''A'', ''B'')]
   \<and> acyclic (set (dep_edges
     [\<lparr>name = ''A'', metadata = Some \<lparr>version = None, dependencies = Some []\<rparr>, pipeline = ()\<rparr>,
      \<lparr>name = ''B'', metadata = Some \<lparr>version = None, dependencies = Some [''A'', ''A'']\<rparr>, pipeline = ()\<rparr>]))
   \<and> resolve
     [\<lparr>name = ''A'', metadata = Some \<lparr>version = None, dependencies = Some []\<rparr>, pipeline = ()\<rparr>,
      \<lparr>name = ''B'', metadata = Some \<lparr>version = None, dependencies = Some [''A'', ''A'']\<rparr>, pipeline = ()\<rparr>]
    = Inl (DependencyError ''Circular dependency detected: Unknown cycle detected'')"
proof -
  let ?es = "[\<lparr>name = ''A'', metadata = Some \<lparr>version = None, dependencies = Some []\<rparr>, pipeline = ()\<rparr>,
      \<lparr>name = ''B'', metadata = Some \<lparr>version = None, dependencies = Some [''A'', ''A'']\<rparr>, pipeline = ()\<rparr>]"
  have c: "new_DependencyResolver ?es = Inr \<lparr>elements =
        [\<lparr>name = ''A'', metadata = Some \<lparr>version = None, dependencies = Some []\<rparr>, pipeline = ()\<rparr>,
         \<lparr>name = ''B'', metadata = Some \<lparr>version = None, dependencies = Some [''A'', ''A'']\<rparr>, pipeline = ()\<rparr>],
      elementMap =
        [(''A'', \<lparr>name = ''A'', metadata = Some \<lparr>version = None, dependencies = Some []\<rparr>, pipeline = ()\<rparr>),
         (''B'', \<lparr>name = ''B'', metadata = Some \<lparr>version = None, dependencies = Some [''A'', ''A'']\<rparr>, pipeline = ()\<rparr>)],
      adjacencyList = [(''A'', [''B'']), (''B'', [])],
      inDegree = [(''A'', 0), (''B'', 2)]\<rparr>" by code_simp
  have e: "dep_edges ?es = [(''A'', ''B''), (''A'', ''B'')]" by code_simp
  have a: "acyclic (set (dep_edges ?es))"
  proof -
    have "acyclic ({} :: (string \<times> string) set)" by (simp add: acyclic_def)
    then have "acyclic {(''A'', ''B'')}" by (simp add: acyclic_insert)
    then show ?thesis unfolding e by simp
  qed
  have r: "resolve ?es = Inl (DependencyError ''Circular dependency detected: Unknown cycle detected'')"
    by code_simp
  show ?thesis using c e a r by (intro conjI)
qed

section \<open>Properties of the dependency resolver: the order returned\<close>

lemma kahn_step_more:
  assumes inv: "kahn_inv D N deg (current # queue) order"
    and ns: "distinct ns" "set ns = {n \<in> N. current \<in> set (D n)}"
    and df: "deps_first D order"
    and ex: "kahn_exact D N deg order"
  shows "deps_first D (order @ [current])"
    and "kahn_exact D N (fst (foldl relax (deg, queue) ns)) (order @ [current])"
proof -
  note I = kahn_invD[OF inv]
  have cur_in: "current \<in> set (order @ current # queue)" by simp
  have cur: "current \<in> N" "current \<notin> set order"
  proof -
    show "current \<in> N" using I(2) cur_in by (rule subsetD)
    show "current \<notin> set order" using I(1) by simp
  qed
  have "js_or0 (map_of deg current) \<le> 0" using I(3)[rule_format, OF cur(1)] cur_in by simp
  then have "int (card (set (D current) - set order)) \<le> 0"
    using I(4)[rule_format, OF cur(1)] by linarith
  then have "card (set (D current) - set order) = 0" by simp
  then have "set (D current) - set order = {}" by simp
  then have curdeps: "set (D current) \<subseteq> set order" by blast
  show "deps_first D (order @ [current])"
    unfolding deps_first_def
  proof (intro allI impI)
    fix i assume i: "i < length (order @ [current])"
    show "set (D ((order @ [current]) ! i)) \<subseteq> set (take i (order @ [current]))"
    proof (cases "i < length order")
      case True
      then have "set (D (order ! i)) \<subseteq> set (take i order)"
        using df by (simp add: deps_first_def)
      then show ?thesis using True by (simp add: nth_append)
    next
      case False
      then have "i = length order" using i by simp
      then show ?thesis using curdeps by simp
    qed
  qed
  note fr = fold_relax[OF ns(1), of deg queue]
  have dgs: "js_or0 (map_of (fst (foldl relax (deg, queue) ns)) n')
      = js_or0 (map_of deg n') - (if n' \<in> set ns then 1 else 0)" for n'
    using fr[THEN conjunct1, rule_format, of n'] .
  show "kahn_exact D N (fst (foldl relax (deg, queue) ns)) (order @ [current])"
    unfolding kahn_exact_def
  proof
    fix n assume n: "n \<in> N"
    have old: "js_or0 (map_of deg n) = int (card (set (D n) - set order))"
      using ex n by (simp add: kahn_exact_def)
    show "js_or0 (map_of (fst (foldl relax (deg, queue) ns)) n)
        = int (card (set (D n) - set (order @ [current])))"
    proof (cases "n \<in> set ns")
      case True
      then have "current \<in> set (D n)" using ns(2) by simp
      then have c: "current \<in> set (D n) - set order" using cur(2) by simp
      have fin: "finite (set (D n) - set order)" by simp
      have "set (D n) - set (order @ [current]) = (set (D n) - set order) - {current}" by auto
      then have "card (set (D n) - set (order @ [current])) = card (set (D n) - set order) - 1"
        using c by (simp add: card_Diff_singleton)
      moreover have "1 \<le> card (set (D n) - set order)"
        using c fin by (metis One_nat_def Suc_leI card_gt_0_iff empty_iff)
      moreover have "js_or0 (map_of (fst (foldl relax (deg, queue) ns)) n)
          = js_or0 (map_of deg n) - 1" using dgs[of n] True by simp
      ultimately show ?thesis using old by linarith
    next
      case False
      then have "current \<notin> set (D n)" using ns(2) n by simp
      then have "set (D n) - set (order @ [current]) = set (D n) - set order" by auto
      moreover have "js_or0 (map_of (fst (foldl relax (deg, queue) ns)) n) = js_or0 (map_of deg n)"
        using dgs[of n] False by simp
      ultimately show ?thesis using old by simp
    qed
  qed
qed

lemma kahn_loop_more:
  "(\<forall>d \<in> N. distinct (neighbors_of adj d) \<and> set (neighbors_of adj d) = {n \<in> N. d \<in> set (D n)})
   \<Longrightarrow> kahn_inv D N deg queue order \<Longrightarrow> deps_first D order \<Longrightarrow> kahn_exact D N deg order
   \<Longrightarrow> result = map (map_of m) order \<Longrightarrow>
     \<exists>order'. fst (kahn_loop m adj deg queue result) = map (map_of m) order'
              \<and> kahn_inv D N (snd (kahn_loop m adj deg queue result)) [] order'
              \<and> deps_first D order'
              \<and> kahn_exact D N (snd (kahn_loop m adj deg queue result)) order'"
proof (induction m adj deg queue result arbitrary: order rule: kahn_loop.induct)
  case (1 m adj deg result)
  then show ?case by auto
next
  case (2 m adj deg current queue result)
  obtain deg' queue' where f: "foldl relax (deg, queue) (neighbors_of adj current) = (deg', queue')"
    by (cases "foldl relax (deg, queue) (neighbors_of adj current)")
  have "current \<in> set (order @ current # queue)" by simp
  then have cur: "current \<in> N" using kahn_invD(2)[OF "2.prems"(2)] by (rule subsetD[rotated])
  note a = "2.prems"(1)[rule_format, OF cur]
  have inv': "kahn_inv D N deg' queue' (order @ [current])"
    using kahn_step[OF "2.prems"(2) a[THEN conjunct1] a[THEN conjunct2]] f by simp
  note more = kahn_step_more[OF "2.prems"(2) a[THEN conjunct1] a[THEN conjunct2] "2.prems"(3,4)]
  have df': "deps_first D (order @ [current])" by (rule more(1))
  have ex': "kahn_exact D N deg' (order @ [current])" using more(2) f by simp
  have res': "result @ [map_of m current] = map (map_of m) (order @ [current])"
    using "2.prems"(5) by simp
  from "2.IH"[OF f[symmetric] "2.prems"(1) inv' df' ex' res']
  show ?case using f by simp
qed

lemma kahn_exhausts:
  assumes inv: "kahn_inv D N deg [] order" and ex: "kahn_exact D N deg order"
    and fin: "finite N" and closed: "\<forall>n \<in> N. set (D n) \<subseteq> N"
    and ac: "acyclic {(a, b). b \<in> set (D a)}"
  shows "set order = N"
proof (rule ccontr)
  assume ne: "set order \<noteq> N"
  note I = kahn_invD[OF inv]
  let ?S = "N - set order"
  have sub: "set order \<subseteq> N" using I(2) by simp
  then have S: "?S \<noteq> {}" using ne by blast
  let ?R = "{(d, n). n \<in> ?S \<and> d \<in> ?S \<and> d \<in> set (D n)}"
  have "?R \<subseteq> {(a, b). b \<in> set (D a)}\<inverse>" by auto
  moreover have "acyclic ({(a, b). b \<in> set (D a)}\<inverse>)" using ac by simp
  ultimately have acR: "acyclic ?R" by (rule acyclic_subset[rotated])
  have "?R \<subseteq> ?S \<times> ?S" by auto
  moreover have "finite (?S \<times> ?S)" using fin by simp
  ultimately have "finite ?R" by (rule finite_subset)
  then have "wf ?R" using acR by (rule finite_acyclic_wf)
  moreover obtain x where x: "x \<in> ?S" using S by blast
  ultimately obtain z where z: "z \<in> ?S" and zmin: "\<And>y. (y, z) \<in> ?R \<Longrightarrow> y \<notin> ?S"
    by (rule wfE_min) blast
  have zN: "z \<in> N" and zo: "z \<notin> set order" using z by simp_all
  have pos: "\<not> js_or0 (map_of deg z) \<le> 0" using I(3)[rule_format, OF zN] zo by simp
  have "js_or0 (map_of deg z) = int (card (set (D z) - set order))"
    using ex[unfolded kahn_exact_def, rule_format, OF zN] .
  with pos have "0 < card (set (D z) - set order)" by linarith
  then obtain d where d: "d \<in> set (D z)" "d \<notin> set order"
    by (metis DiffE card_gt_0_iff equals0I)
  have "d \<in> N" using closed zN d(1) by blast
  then have "d \<in> ?S" using d(2) by simp
  then have "(d, z) \<in> ?R" using z d(1) by simp
  then show False using zmin \<open>d \<in> ?S\<close> by blast
qed

lemma no_edges_into: "n \<notin> name ` set es \<Longrightarrow> filter (\<lambda>dn. snd dn = n) (dep_edges es) = []"
  by (induction es) (auto simp: dep_edges_Cons filter_empty_conv dep_edges_def)

lemma edges_into:
  "distinct (map name es) \<Longrightarrow> e \<in> set es \<Longrightarrow>
     filter (\<lambda>dn. snd dn = name e) (dep_edges es) = map (\<lambda>d. (d, name e)) (deps_of e)"
proof (induction es)
  case Nil
  then show ?case by simp
next
  case (Cons e' es)
  have fresh: "name e' \<notin> name ` set es" and dist: "distinct (map name es)"
    using Cons.prems(1) by simp_all
  show ?case
  proof (cases "e = e'")
    case True
    have "filter (\<lambda>dn. snd dn = name e') (map (\<lambda>d. (d, name e')) (deps_of e'))
        = map (\<lambda>d. (d, name e')) (deps_of e')"
      by (simp add: filter_map comp_def)
    then show ?thesis using True no_edges_into[OF fresh] by (simp add: dep_edges_Cons)
  next
    case False
    then have e: "e \<in> set es" using Cons.prems(2) by simp
    then have "name e \<in> name ` set es" by (rule imageI)
    then have "name e \<noteq> name e'" using fresh by metis
    then have "filter (\<lambda>dn. snd dn = name e) (map (\<lambda>d. (d, name e')) (deps_of e')) = []"
      by (simp add: filter_empty_conv)
    then show ?thesis using Cons.IH[OF dist e] by (simp add: dep_edges_Cons)
  qed
qed

lemma kahn_exact_initial:
  assumes c: "new_DependencyResolver es = Inr r"
    and nodup: "\<forall>e \<in> set es. distinct (deps_of e)"
  shows "kahn_exact (node_deps (elementMap r)) (set (map name es)) (inDegree r) []"
  unfolding kahn_exact_def
proof
  fix n assume "n \<in> set (map name es)"
  then obtain e where e: "e \<in> set es" "n = name e" by auto
  note b = resolver_built[OF c]
  note g = resolver_graph[OF c]
  have nd: "node_deps (elementMap r) n = deps_of e"
    unfolding b(2) e(2) using map_of_elementMap[OF b(3) e(1)] by (simp add: node_deps_def)
  have "js_or0 (map_of (inDegree r) n) = int (length (deps_of e))"
    using g(4)[of n] edges_into[OF b(3) e(1)] e(2) by simp
  also have "length (deps_of e) = card (set (deps_of e))"
    using nodup e(1) by (simp add: distinct_card)
  finally show "js_or0 (map_of (inDegree r) n)
      = int (card (set (node_deps (elementMap r) n) - set []))"
    by (simp add: nd)
qed

text \<open>
  What claim C1 says of \<open>resolveExecutionOrder\<close> holds whenever no element lists a
  dependency twice. When the elements pass the validation of the constructor, no
  dependency list repeats an entry and the dependency graph is acyclic, the call returns a
  list that holds every loaded element, each once, in which every element comes after each
  of its dependencies.
\<close>

theorem acyclic_order_without_repeated_dependencies:
  "new_DependencyResolver es = Inr r \<and> acyclic (set (dep_edges es))
     \<and> (\<forall>e \<in> set es. distinct (deps_of e)) \<longrightarrow>
     (\<exists>res. fst (resolveExecutionOrder r) = Inr (map Some res)
            \<and> resolve es = Inr (map Some res)
            \<and> length res = length es \<and> set res = set es \<and> distinct (map name res)
            \<and> (\<forall>i < length res. \<forall>d \<in> set (deps_of (res ! i)). \<exists>j < i. name (res ! j) = d))"
proof
  assume a: "new_DependencyResolver es = Inr r \<and> acyclic (set (dep_edges es))
     \<and> (\<forall>e \<in> set es. distinct (deps_of e))"
  then have c: "new_DependencyResolver es = Inr r" and ac: "acyclic (set (dep_edges es))"
    and nodup: "\<forall>e \<in> set es. distinct (deps_of e)"
    by simp_all
  let ?m = "elementMap r"
  let ?D = "node_deps ?m" and ?N = "set (map name es)"
  note b = resolver_built[OF c]
  note g = resolver_graph[OF c]
  have look: "map_of ?m (name e) = Some e" if "e \<in> set es" for e
    unfolding b(2) using map_of_elementMap[OF b(3) that] .
  have nd: "?D (name e) = deps_of e" if "e \<in> set es" for e
    using look[OF that] by (simp add: node_deps_def)
  have adj: "\<forall>d \<in> ?N. distinct (neighbors_of (adjacencyList r) d)
        \<and> set (neighbors_of (adjacencyList r) d) = {n \<in> ?N. d \<in> set (?D n)}"
  proof
    fix d assume "d \<in> ?N"
    have a: "set (neighbors_of (adjacencyList r) d) = {n. d \<in> set (?D n)}"
      using g(3)[of d] node_deps_iff[OF b(3), of d] unfolding b(2) by simp
    have "n \<in> ?N" if "d \<in> set (?D n)" for n
    proof -
      have "(d, n) \<in> set (dep_edges es)"
        using that node_deps_iff[OF b(3), of d n] unfolding b(2) by simp
      then show ?thesis unfolding dep_edges_iff by force
    qed
    then have "set (neighbors_of (adjacencyList r) d) = {n \<in> ?N. d \<in> set (?D n)}"
      using a by blast
    then show "distinct (neighbors_of (adjacencyList r) d)
        \<and> set (neighbors_of (adjacencyList r) d) = {n \<in> ?N. d \<in> set (?D n)}"
      using g(2)[of d] by simp
  qed
  have df0: "deps_first ?D []" by (simp add: deps_first_def)
  have r0: "[] = map (map_of ?m) []" by simp
  from kahn_loop_more[OF adj kahn_inv_initial[OF c] df0 kahn_exact_initial[OF c nodup] r0]
  obtain order where o: "fst (topologicalSort r) = map (map_of ?m) order"
    and inv: "kahn_inv ?D ?N (snd (topologicalSort r)) [] order"
    and df: "deps_first ?D order"
    and ex: "kahn_exact ?D ?N (snd (topologicalSort r)) order"
    unfolding topologicalSort_def by blast
  have closed: "\<forall>n \<in> ?N. set (?D n) \<subseteq> ?N"
  proof
    fix n assume "n \<in> ?N"
    then obtain e where e: "e \<in> set es" "n = name e" by auto
    show "set (?D n) \<subseteq> ?N" unfolding e(2) nd[OF e(1)] using b(4) e(1) by blast
  qed
  have acD: "acyclic {(a, b). b \<in> set (?D a)}"
    using ac unfolding edges_converse[OF c] by simp
  have all: "set order = ?N"
    using kahn_exhausts[OF inv ex _ closed acD] by simp
  have dist: "distinct order" using kahn_invD(1)[OF inv] by simp
  have "card ?N = length (map name es)" using b(3) by (rule distinct_card)
  moreover have "card (set order) = length order" using dist by (rule distinct_card)
  ultimately have len: "length order = length es" using all by simp
  define res where "res = map (\<lambda>n. the (map_of ?m n)) order"
  have elem: "\<exists>e \<in> set es. n = name e \<and> the (map_of ?m n) = e" if "n \<in> set order" for n
  proof -
    from that all obtain e where e: "e \<in> set es" "n = name e" by auto
    then show ?thesis using look[OF e(1)] by auto
  qed
  have some: "map_of ?m n = Some (the (map_of ?m n))" if "n \<in> set order" for n
    using elem[OF that] look by force
  have res_some: "map (map_of ?m) order = map Some res"
    unfolding res_def using some by (simp add: comp_def)
  have names: "map name res = order"
  proof -
    have "name (the (map_of ?m n)) = n" if "n \<in> set order" for n
      using elem[OF that] by auto
    then show ?thesis unfolding res_def by (simp add: comp_def map_idI)
  qed
  have lenr: "length res = length es" using len by (simp add: res_def)
  have setr: "set res = set es"
  proof
    show "set res \<subseteq> set es" unfolding res_def using elem by auto
    show "set es \<subseteq> set res"
    proof
      fix e assume e: "e \<in> set es"
      then have "name e \<in> set order" using all by simp
      moreover have "the (map_of ?m (name e)) = e" using look[OF e] by simp
      ultimately show "e \<in> set res" unfolding res_def by force
    qed
  qed
  have before: "\<exists>j < i. name (res ! j) = d" if i: "i < length res" and d: "d \<in> set (deps_of (res ! i))" for i d
  proof -
    have io: "i < length order" using i by (simp add: res_def)
    have ri: "res ! i \<in> set es" using setr i by (metis nth_mem)
    have "name (res ! i) = order ! i" using names io i by (metis nth_map)
    then have "deps_of (res ! i) = ?D (order ! i)" using nd[OF ri] by simp
    then have "d \<in> set (take i order)" using df io d by (auto simp: deps_first_def)
    then obtain j where j: "j < length (take i order)" "take i order ! j = d"
      by (metis in_set_conv_nth)
    then have ji: "j < i" and "order ! j = d" by simp_all
    moreover have "name (res ! j) = order ! j" using names ji io i by (metis nth_map order.strict_trans)
    ultimately show ?thesis by auto
  qed
  have full: "length (fst (topologicalSort r)) = length (elements r)"
    using o len b(1) by simp
  have ok: "fst (resolveExecutionOrder r) = Inr (map Some res)"
    using full o res_some by (cases "topologicalSort r") (simp add: resolveExecutionOrder_def)
  have ok2: "resolve es = Inr (map Some res)" using c ok by (simp add: resolve_def)
  have dn: "distinct (map name res)" using names dist by simp
  have bf: "\<forall>i < length res. \<forall>d \<in> set (deps_of (res ! i)). \<exists>j < i. name (res ! j) = d"
    using before by blast
  have "fst (resolveExecutionOrder r) = Inr (map Some res)
            \<and> resolve es = Inr (map Some res)
            \<and> length res = length es \<and> set res = set es \<and> distinct (map name res)
            \<and> (\<forall>i < length res. \<forall>d \<in> set (deps_of (res ! i)). \<exists>j < i. name (res ! j) = d)"
    using ok ok2 lenr setr dn bf by (intro conjI)
  then show "\<exists>res. fst (resolveExecutionOrder r) = Inr (map Some res)
            \<and> resolve es = Inr (map Some res)
            \<and> length res = length es \<and> set res = set es \<and> distinct (map name res)
            \<and> (\<forall>i < length res. \<forall>d \<in> set (deps_of (res ! i)). \<exists>j < i. name (res ! j) = d)"
    by (rule exI)
qed

theorem acyclic_order_without_repeated_dependencies_witness:
  "new_DependencyResolver
     [\<lparr>name = ''B'', metadata = Some \<lparr>version = None, dependencies = Some [''A'']\<rparr>, pipeline = ()\<rparr>,
      \<lparr>name = ''A'', metadata = None, pipeline = ()\<rparr>]
    = Inr \<lparr>elements =
        [\<lparr>name = ''B'', metadata = Some \<lparr>version = None, dependencies = Some [''A'']\<rparr>, pipeline = ()\<rparr>,
         \<lparr>name = ''A'', metadata = None, pipeline = ()\<rparr>],
      elementMap =
        [(''B'', \<lparr>name = ''B'', metadata = Some \<lparr>version = None, dependencies = Some [''A'']\<rparr>, pipeline = ()\<rparr>),
         (''A'', \<lparr>name = ''A'', metadata = None, pipeline = ()\<rparr>)],
      adjacencyList = [(''B'', []), (''A'', [''B''])],
      inDegree = [(''B'', 1), (''A'', 0)]\<rparr>
   \<and> acyclic (set (dep_edges
     [\<lparr>name = ''B'', metadata = Some \<lparr>version = None, dependencies = Some [''A'']\<rparr>, pipeline = ()\<rparr>,
      \<lparr>name = ''A'', metadata = None, pipeline = ()\<rparr>]))
   \<and> resolve
     [\<lparr>name = ''B'', metadata = Some \<lparr>version = None, dependencies = Some [''A'']\<rparr>, pipeline = ()\<rparr>,
      \<lparr>name = ''A'', metadata = None, pipeline = ()\<rparr>]
    = Inr [Some \<lparr>name = ''A'', metadata = None, pipeline = ()\<rparr>,
           Some \<lparr>name = ''B'', metadata = Some \<lparr>version = None, dependencies = Some [''A'']\<rparr>, pipeline = ()\<rparr>]
   \<and> (\<exists>res. resolve
     [\<lparr>name = ''B'', metadata = Some \<lparr>version = None, dependencies = Some [''A'']\<rparr>, pipeline = ()\<rparr>,
      \<lparr>name = ''A'', metadata = None, pipeline = ()\<rparr>]
         = Inr (map Some res)
        \<and> length res = 2 \<and> distinct (map name res)
        \<and> (\<forall>i < length res. \<forall>d \<in> set (deps_of (res ! i)). \<exists>j < i. name (res ! j) = d))"
proof -
  let ?es = "[\<lparr>name = ''B'', metadata = Some \<lparr>version = None, dependencies = Some [''A'']\<rparr>, pipeline = ()\<rparr>,
      \<lparr>name = ''A'', metadata = None, pipeline = ()\<rparr>]"
  let ?r = "\<lparr>elements =
        [\<lparr>name = ''B'', metadata = Some \<lparr>version = None, dependencies = Some [''A'']\<rparr>, pipeline = ()\<rparr>,
         \<lparr>name = ''A'', metadata = None, pipeline = ()\<rparr>],
      elementMap =
        [(''B'', \<lparr>name = ''B'', metadata = Some \<lparr>version = None, dependencies = Some [''A'']\<rparr>, pipeline = ()\<rparr>),
         (''A'', \<lparr>name = ''A'', metadata = None, pipeline = ()\<rparr>)],
      adjacencyList = [(''B'', []), (''A'', [''B''])],
      inDegree = [(''B'', 1), (''A'', 0)]\<rparr>"
  have c: "new_DependencyResolver ?es = Inr ?r" by code_simp
  have e: "dep_edges ?es = [(''A'', ''B'')]" by code_simp
  have a: "acyclic (set (dep_edges ?es))"
  proof -
    have "acyclic ({} :: (string \<times> string) set)" by (simp add: acyclic_def)
    then have "acyclic {(''A'', ''B'')}" by (simp add: acyclic_insert)
    then show ?thesis unfolding e by simp
  qed
  have n: "\<forall>e \<in> set ?es. distinct (deps_of e)" by (simp add: deps_of_def)
  have v: "resolve ?es = Inr [Some \<lparr>name = ''A'', metadata = None, pipeline = ()\<rparr>,
           Some \<lparr>name = ''B'', metadata = Some \<lparr>version = None, dependencies = Some [''A'']\<rparr>, pipeline = ()\<rparr>]"
    by code_simp
  from acyclic_order_without_repeated_dependencies[of ?es ?r] c a n
  obtain res where res: "resolve ?es = Inr (map Some res)" "length res = length ?es"
      "distinct (map name res)"
      "\<forall>i < length res. \<forall>d \<in> set (deps_of (res ! i)). \<exists>j < i. name (res ! j) = d"
    by blast
  have "\<exists>res. resolve ?es = Inr (map Some res)
        \<and> length res = 2 \<and> distinct (map name res)
        \<and> (\<forall>i < length res. \<forall>d \<in> set (deps_of (res ! i)). \<exists>j < i. name (res ! j) = d)"
    using res by (intro exI[of _ res]) simp
  with c a v show ?thesis by (intro conjI)
qed

end
